theory Spec2Isabelle
  imports Main "HOL-Library.Char_ord" "HOL-Library.List_Lexorder" "HOL-Library.Multiset"
begin

section \<open>Overview\<close>

text \<open>
  The relayer keeps one thread file per conversation in an object store (the server's
  handler of \<^verbatim>\<open>POST /api/messages/send\<close>) and a table of the uploads it made (cleanup.js),
  which a periodic job sweeps. The handler and the job are modelled as functions of the
  state they read and write: the object store, the table, and the answers of the ledger
  contract, which is a parameter and does not change during one call. Requests to the
  ledger, to the object store and to the table can fail; which ones do is a parameter too.
  One call runs without another interleaved with it. JavaScript numbers are integers here,
  and \<^verbatim>\<open>Date.now()\<close> is the parameter \<open>now\<close>.
\<close>

section \<open>Signed messages and thread files\<close>

text \<open>
  The request body of \<^verbatim>\<open>POST /api/messages/send\<close> carries a signed message; the handler
  reads the fields below and carries the others along unread. A thread file is the JSON
  object kept in the object store under \<^verbatim>\<open>threads/<threadId>\<close>.
\<close>

record signedMessage =
  messageId :: string
  sender :: string
  participants :: "string list"
  index :: int
  prevHash :: string
  hash :: string

record threadFile =
  threadId :: string
  participants :: "string list"
  version :: int
  lastUpdated :: int
  messages :: "signedMessage list"

section \<open>The tracking table of cleanup.js\<close>

text \<open>
  The table \<^verbatim>\<open>pending_uploads\<close> of cleanup.js: one row per tracked upload. The column
  \<^verbatim>\<open>id\<close> is \<open>rowid\<close> here, \<^verbatim>\<open>status\<close> is the four-valued CHECK constraint, and
  \<^verbatim>\<open>confirmed_at\<close> is nullable. Timestamps are the milliseconds of \<^verbatim>\<open>Date.now()\<close>.
\<close>

datatype status = Pending | Confirmed | Orphaned | Unpinned

record upload =
  rowid :: nat
  cid :: string
  thread_id :: string
  message_index :: int
  sender :: string
  created_at :: int
  confirmed_at :: "int option"
  status :: status

text \<open>
  The database: the rows in rowid order (the order in which a \<^verbatim>\<open>SELECT *\<close> without
  ORDER BY walks them) and the AUTOINCREMENT counter, the largest rowid ever handed out.
\<close>

record database =
  rows :: "upload list"
  seq :: nat

definition empty_db :: database where
  "empty_db = \<lparr>rows = [], seq = 0\<rparr>"

text \<open>
  The prepared statements. \<^verbatim>\<open>INSERT OR REPLACE\<close> first deletes every row that conflicts on
  the UNIQUE column \<^verbatim>\<open>cid\<close>, then inserts the new row under a fresh rowid; the column
  \<^verbatim>\<open>confirmed_at\<close> is not listed and takes its default NULL. The three UPDATE statements
  select on \<^verbatim>\<open>cid\<close> alone.
\<close>

definition insertUpload :: "string \<Rightarrow> string \<Rightarrow> int \<Rightarrow> string \<Rightarrow> int \<Rightarrow> database \<Rightarrow> database" where
  "insertUpload c t i s ts d =
     \<lparr>rows = filter (\<lambda>r. cid r \<noteq> c) (rows d) @
        [\<lparr>rowid = Suc (seq d), cid = c, thread_id = t, message_index = i, upload.sender = s,
          created_at = ts, confirmed_at = None, status = Pending\<rparr>],
      seq = Suc (seq d)\<rparr>"

definition getPendingUploads :: "int \<Rightarrow> database \<Rightarrow> upload list" where
  "getPendingUploads cutoff d = filter (\<lambda>r. status r = Pending \<and> created_at r < cutoff) (rows d)"

definition set_confirmed :: "int \<Rightarrow> string \<Rightarrow> upload \<Rightarrow> upload" where
  "set_confirmed ts c r = (if cid r = c then r\<lparr>status := Confirmed, confirmed_at := Some ts\<rparr> else r)"

definition set_status :: "status \<Rightarrow> string \<Rightarrow> upload \<Rightarrow> upload" where
  "set_status s c r = (if cid r = c then r\<lparr>status := s\<rparr> else r)"

definition markConfirmed :: "int \<Rightarrow> string \<Rightarrow> database \<Rightarrow> database" where
  "markConfirmed ts c d = d\<lparr>rows := map (set_confirmed ts c) (rows d)\<rparr>"

definition markOrphaned :: "string \<Rightarrow> database \<Rightarrow> database" where
  "markOrphaned c d = d\<lparr>rows := map (set_status Orphaned c) (rows d)\<rparr>"

definition markUnpinned :: "string \<Rightarrow> database \<Rightarrow> database" where
  "markUnpinned c d = d\<lparr>rows := map (set_status Unpinned c) (rows d)\<rparr>"

definition getOrphanedUploads :: "database \<Rightarrow> upload list" where
  "getOrphanedUploads d = filter (\<lambda>r. status r = Orphaned) (rows d)"

text \<open>
  A statement of better-sqlite3 throws when SQLite reports an error (a locked or full
  database). Which executions throw is a parameter of the model: \<open>throws q\<close> holds when the
  execution of statement \<open>q\<close> throws and leaves the table as it was.
\<close>

datatype stmt =
    InsertUpload string
  | GetPendingUploads
  | MarkConfirmed string
  | MarkOrphaned string
  | MarkUnpinned string
  | GetOrphanedUploads
  | GetStats

type_synonym faults = "stmt \<Rightarrow> bool"

definition no_faults :: faults where
  "no_faults q = False"

text \<open>
  \<^verbatim>\<open>trackUpload\<close> and \<^verbatim>\<open>confirmUpload\<close> run one statement inside try/catch and return
  whether it went through. \<open>now\<close> is the reading of \<^verbatim>\<open>Date.now()\<close>.
\<close>

definition trackUpload :: "faults \<Rightarrow> int \<Rightarrow> string \<Rightarrow> string \<Rightarrow> int \<Rightarrow> string \<Rightarrow> database \<Rightarrow> bool \<times> database" where
  "trackUpload throws now c tid msgIndex s d =
     (if throws (InsertUpload c) then (False, d)
      else (True, insertUpload c tid msgIndex s now d))"

definition confirmUpload :: "faults \<Rightarrow> int \<Rightarrow> string \<Rightarrow> database \<Rightarrow> bool \<times> database" where
  "confirmUpload throws now c d =
     (if throws (MarkConfirmed c) then (False, d) else (True, markConfirmed now c d))"

definition getStaleUploads :: "int \<Rightarrow> int \<Rightarrow> database \<Rightarrow> upload list" where
  "getStaleUploads now maxAgeMinutes d = getPendingUploads (now - maxAgeMinutes * 60 * 1000) d"

text \<open>A sequence of \<^verbatim>\<open>trackUpload\<close> calls, each with its own arguments and clock reading.\<close>

record track_call =
  t_now :: int
  t_cid :: string
  t_thread :: string
  t_index :: int
  t_sender :: string

fun track_all :: "faults \<Rightarrow> track_call list \<Rightarrow> database \<Rightarrow> database" where
  "track_all throws [] d = d"
| "track_all throws (k # ks) d =
     track_all throws ks
       (snd (trackUpload throws (t_now k) (t_cid k) (t_thread k) (t_index k) (t_sender k) d))"

definition rows_with :: "string \<Rightarrow> database \<Rightarrow> upload list" where
  "rows_with c d = filter (\<lambda>r. cid r = c) (rows d)"

section \<open>The cleanup job of cleanup.js\<close>

text \<open>
  The ledger handle: \<^verbatim>\<open>messageContract.getReadStatus(threadId, participant)\<close> answers with
  \<^verbatim>\<open>totalMessages\<close> (a uint256, read here as a natural number: \<^verbatim>\<open>Number(totalMessages)\<close> is
  that number up to 2^53) or rejects, which is \<open>None\<close>. The handle itself is \<open>None\<close> when
  MESSAGE_CONTRACT_ADDRESS is not set.
\<close>

type_synonym contract = "string \<Rightarrow> string \<Rightarrow> nat option"

definition checkOnChain :: "contract option \<Rightarrow> string \<Rightarrow> string \<Rightarrow> int \<Rightarrow> bool" where
  "checkOnChain messageContract tid s expected =
     (case messageContract of
        None \<Rightarrow> False
      | Some c \<Rightarrow>
          (case c tid s of
             None \<Rightarrow> False
           | Some totalMessages \<Rightarrow> int totalMessages > expected))"

text \<open>
  \<^verbatim>\<open>unpinFromFilebase\<close> receives the object store and the bucket, makes no request to
  either, and returns true; its catch block has nothing to catch.
\<close>

definition unpinFromFilebase :: "'s \<Rightarrow> string \<Rightarrow> string \<Rightarrow> bool \<times> 's" where
  "unpinFromFilebase s3 bucket c = (True, s3)"

text \<open>
  The calls a sweep makes, in the order it makes them: ledger queries, statements of the
  table, and calls of \<^verbatim>\<open>unpinFromFilebase\<close>.
\<close>

datatype call = GetReadStatus string string | Run stmt | UnpinFromFilebase string

record counts =
  confirmed :: nat
  orphaned :: nat
  unpinned :: nat
  errors :: nat

record 's sweep =
  db :: database
  s3 :: 's
  tally :: counts
  calls :: "call list"

record options =
  maxAgeMinutes :: int
  dryRun :: bool

definition default_options :: options where
  "default_options = \<lparr>maxAgeMinutes = 15, dryRun = False\<rparr>"

definition checkOnChain_calls :: "contract option \<Rightarrow> upload \<Rightarrow> call list" where
  "checkOnChain_calls messageContract u =
     (case messageContract of None \<Rightarrow> [] | Some c \<Rightarrow> [GetReadStatus (thread_id u) (upload.sender u)])"

text \<open>
  One iteration of the first loop of \<^verbatim>\<open>runCleanup\<close>: the check, then the UPDATE; the
  catch block counts a statement that throws. The sweep reads the clock as \<open>now\<close>
  throughout.
\<close>

definition checkUpload :: "contract option \<Rightarrow> int \<Rightarrow> faults \<Rightarrow> upload \<Rightarrow> 's sweep \<Rightarrow> 's sweep" where
  "checkUpload messageContract now throws u st =
     (if checkOnChain messageContract (thread_id u) (upload.sender u) (message_index u) then
        (if throws (MarkConfirmed (cid u)) then
           st\<lparr>tally := (tally st)\<lparr>errors := Suc (errors (tally st))\<rparr>,
              calls := calls st @ checkOnChain_calls messageContract u @ [Run (MarkConfirmed (cid u))]\<rparr>
         else
           st\<lparr>db := markConfirmed now (cid u) (db st),
              tally := (tally st)\<lparr>confirmed := Suc (confirmed (tally st))\<rparr>,
              calls := calls st @ checkOnChain_calls messageContract u @ [Run (MarkConfirmed (cid u))]\<rparr>)
      else
        (if throws (MarkOrphaned (cid u)) then
           st\<lparr>tally := (tally st)\<lparr>errors := Suc (errors (tally st))\<rparr>,
              calls := calls st @ checkOnChain_calls messageContract u @ [Run (MarkOrphaned (cid u))]\<rparr>
         else
           st\<lparr>db := markOrphaned (cid u) (db st),
              tally := (tally st)\<lparr>orphaned := Suc (orphaned (tally st))\<rparr>,
              calls := calls st @ checkOnChain_calls messageContract u @ [Run (MarkOrphaned (cid u))]\<rparr>))"

fun checkStale :: "contract option \<Rightarrow> int \<Rightarrow> faults \<Rightarrow> upload list \<Rightarrow> 's sweep \<Rightarrow> 's sweep" where
  "checkStale messageContract now throws [] st = st"
| "checkStale messageContract now throws (u # us) st =
     checkStale messageContract now throws us (checkUpload messageContract now throws u st)"

text \<open>
  One iteration of the second loop. \<^verbatim>\<open>markUnpinned.run\<close> stands outside any try block: when
  it throws, the loop is left and the promise of \<^verbatim>\<open>runCleanup\<close> rejects (\<open>Inl\<close>, with the
  state reached).
\<close>

definition unpinUpload :: "faults \<Rightarrow> bool \<Rightarrow> string \<Rightarrow> upload \<Rightarrow> 's sweep \<Rightarrow> 's sweep + 's sweep" where
  "unpinUpload throws dry bucket u st =
     (if dry then Inr st
      else
        (case unpinFromFilebase (s3 st) bucket (cid u) of
           (success, s3') \<Rightarrow>
             if success then
               (if throws (MarkUnpinned (cid u)) then
                  Inl (st\<lparr>s3 := s3',
                          calls := calls st @ [UnpinFromFilebase (cid u), Run (MarkUnpinned (cid u))]\<rparr>)
                else
                  Inr (st\<lparr>db := markUnpinned (cid u) (db st), s3 := s3',
                          tally := (tally st)\<lparr>unpinned := Suc (unpinned (tally st))\<rparr>,
                          calls := calls st @ [UnpinFromFilebase (cid u), Run (MarkUnpinned (cid u))]\<rparr>))
             else Inr (st\<lparr>s3 := s3', calls := calls st @ [UnpinFromFilebase (cid u)]\<rparr>)))"

fun unpinOrphaned :: "faults \<Rightarrow> bool \<Rightarrow> string \<Rightarrow> upload list \<Rightarrow> 's sweep \<Rightarrow> 's sweep + 's sweep" where
  "unpinOrphaned throws dry bucket [] st = Inr st"
| "unpinOrphaned throws dry bucket (u # us) st =
     (case unpinUpload throws dry bucket u st of
        Inl st' \<Rightarrow> Inl st'
      | Inr st' \<Rightarrow> unpinOrphaned throws dry bucket us st')"

text \<open>
  \<^verbatim>\<open>runCleanup\<close>: the state it leaves and what it returns, \<open>None\<close> when its promise rejects
  because a statement outside the try block threw.
\<close>

definition runCleanup ::
  "contract option \<Rightarrow> 's \<Rightarrow> string \<Rightarrow> options \<Rightarrow> int \<Rightarrow> faults \<Rightarrow> database \<Rightarrow> 's sweep \<times> counts option" where
  "runCleanup messageContract store bucket opts now throws d =
     (let st0 = \<lparr>db = d, s3 = store,
                 tally = \<lparr>confirmed = 0, orphaned = 0, unpinned = 0, errors = 0\<rparr>,
                 calls = [Run GetPendingUploads]\<rparr>
      in if throws GetPendingUploads then (st0, None)
         else
           let staleUploads = getStaleUploads now (maxAgeMinutes opts) d;
               st1 = checkStale messageContract now throws staleUploads st0;
               st1' = st1\<lparr>calls := calls st1 @ [Run GetOrphanedUploads]\<rparr>
           in if throws GetOrphanedUploads then (st1', None)
              else
                (case unpinOrphaned throws (dryRun opts) bucket (getOrphanedUploads (db st1)) st1' of
                   Inl st2 \<Rightarrow> (st2, None)
                 | Inr st2 \<Rightarrow>
                     let st3 = st2\<lparr>calls := calls st2 @ [Run GetStats]\<rparr>
                     in if throws GetStats then (st3, None) else (st3, Some (tally st3))))"

text \<open>
  Reading a sweep. Among its calls, the checks are the ledger queries and the UPDATEs of
  the first loop, the unpins are the calls of the second loop. \<open>status_of c d\<close> is the status
  of the row tracked for \<open>c\<close>; \<open>is_stale\<close> is the WHERE clause of \<^verbatim>\<open>getPendingUploads\<close> at the
  cutoff of \<^verbatim>\<open>getStaleUploads\<close>; \<open>on_chain\<close> is \<^verbatim>\<open>checkOnChain\<close> on the columns of a row.
\<close>

fun is_check :: "call \<Rightarrow> bool" where
  "is_check (GetReadStatus t s) = True"
| "is_check (Run (MarkConfirmed c)) = True"
| "is_check (Run (MarkOrphaned c)) = True"
| "is_check x = False"

fun is_unpin :: "call \<Rightarrow> bool" where
  "is_unpin (UnpinFromFilebase c) = True"
| "is_unpin (Run (MarkUnpinned c)) = True"
| "is_unpin x = False"

definition status_of :: "string \<Rightarrow> database \<Rightarrow> status option" where
  "status_of c d = map_option status (find (\<lambda>r. cid r = c) (rows d))"

definition is_stale :: "int \<Rightarrow> int \<Rightarrow> upload \<Rightarrow> bool" where
  "is_stale now maxAge r = (status r = Pending \<and> created_at r < now - maxAge * 60 * 1000)"

definition on_chain :: "contract option \<Rightarrow> upload \<Rightarrow> bool" where
  "on_chain messageContract r = checkOnChain messageContract (thread_id r) (upload.sender r) (message_index r)"

text \<open>
  The loops, read row by row. \<open>check_row u r\<close> is what the iteration of the first loop for
  the upload \<open>u\<close> does to a row \<open>r\<close> of the table, and \<open>checked r\<close> is the row \<open>r\<close> after the first
  loop of a table without duplicate cids. \<open>query_rejects\<close> holds when the ledger query for
  a row rejects. \<open>check_calls\<close> and \<open>unpin_calls\<close> are the calls one iteration of the first
  and of the second loop makes, and \<open>reached\<close> is the state a loop ends in, left early or not.
\<close>

definition check_row :: "contract option \<Rightarrow> int \<Rightarrow> faults \<Rightarrow> upload \<Rightarrow> upload \<Rightarrow> upload" where
  "check_row messageContract now throws u r =
     (if on_chain messageContract u then
        (if throws (MarkConfirmed (cid u)) then r else set_confirmed now (cid u) r)
      else
        (if throws (MarkOrphaned (cid u)) then r else set_status Orphaned (cid u) r))"

definition checked :: "contract option \<Rightarrow> int \<Rightarrow> int \<Rightarrow> faults \<Rightarrow> upload \<Rightarrow> upload" where
  "checked messageContract now maxAge throws r =
     (if is_stale now maxAge r then check_row messageContract now throws r r else r)"

definition query_rejects :: "contract option \<Rightarrow> upload \<Rightarrow> bool" where
  "query_rejects messageContract r =
     (case messageContract of
        None \<Rightarrow> False
      | Some c \<Rightarrow> c (thread_id r) (upload.sender r) = None)"

definition check_calls :: "contract option \<Rightarrow> upload \<Rightarrow> call list" where
  "check_calls messageContract u =
     checkOnChain_calls messageContract u @
       [Run (if on_chain messageContract u then MarkConfirmed (cid u) else MarkOrphaned (cid u))]"

definition unpin_calls :: "upload \<Rightarrow> call list" where
  "unpin_calls u = [UnpinFromFilebase (cid u), Run (MarkUnpinned (cid u))]"

definition reached :: "'a + 'a \<Rightarrow> 'a" where
  "reached x = (case x of Inl a \<Rightarrow> a | Inr a \<Rightarrow> a)"

section \<open>The send handler\<close>

text \<open>
  The object store, as the handler uses it: \<^verbatim>\<open>getObject\<close> followed by \<^verbatim>\<open>JSON.parse\<close>
  yields the thread file under a key, or throws (no object, no JSON, no \<^verbatim>\<open>messages\<close>
  array); \<^verbatim>\<open>upload\<close> writes the object under its key. A request to the store can also
  fail in transit; which requests do is the parameter \<open>fails\<close>.
\<close>

type_synonym store = "string \<Rightarrow> threadFile option"

datatype s3op = GetObject string | Upload string | HeadObject string

datatype send_error =
    IndexMismatch int int
  | CannotFindConfirmedMessage int
  | ChainBroken string string
  | FirstMessageMustHaveZeroPrevHash
  | UploadFailed

record sent =
  sent_messageId :: string
  threadCID :: string
  messageIndex :: int
  threadMessageCount :: nat

definition zeroHash :: string where
  "zeroHash = ''0x0000000000000000000000000000000000000000000000000000000000000000''"

definition threadKey :: "string \<Rightarrow> string" where
  "threadKey tid = ''threads/'' @ tid"

text \<open>
  The handler sorts the participants with
  \<^verbatim>\<open>participants.sort((a, b) => a.toLowerCase().localeCompare(b.toLowerCase()))\<close>. The two
  string functions belong to the JavaScript runtime and its locale, and are parameters
  here. \<^verbatim>\<open>Array.prototype.sort\<close> with a consistent comparison function returns the stable
  sorted permutation, which is what inserting the elements from the right computes: an
  element goes in front of the first one it does not compare greater than. With a
  comparison function that is not consistent the language leaves the order to the
  implementation; \<open>consistent_on\<close> says that the function compares any two elements of a
  list one way or the other and transitively, and what is stated below about the order of
  the result is stated under it.
\<close>

record runtime =
  toLowerCase :: "string \<Rightarrow> string"
  localeCompare :: "string \<Rightarrow> string \<Rightarrow> int"

definition compareParticipants :: "runtime \<Rightarrow> string \<Rightarrow> string \<Rightarrow> int" where
  "compareParticipants js a b = localeCompare js (toLowerCase js a) (toLowerCase js b)"

fun insertSorted :: "('a \<Rightarrow> 'a \<Rightarrow> int) \<Rightarrow> 'a \<Rightarrow> 'a list \<Rightarrow> 'a list" where
  "insertSorted compareFn x [] = [x]"
| "insertSorted compareFn x (y # ys) =
     (if compareFn x y \<le> 0 then x # y # ys else y # insertSorted compareFn x ys)"

definition sortWith :: "('a \<Rightarrow> 'a \<Rightarrow> int) \<Rightarrow> 'a list \<Rightarrow> 'a list" where
  "sortWith compareFn xs = foldr (insertSorted compareFn) xs []"

definition sortParticipants :: "runtime \<Rightarrow> string list \<Rightarrow> string list" where
  "sortParticipants js ps = sortWith (compareParticipants js) ps"

text \<open>
  A comparison function is consistent on a list when, on its elements, "not greater" is
  total and transitive.
\<close>

definition consistent_on :: "('a \<Rightarrow> 'a \<Rightarrow> int) \<Rightarrow> 'a list \<Rightarrow> bool" where
  "consistent_on compareFn xs =
     (list_all (\<lambda>a. list_all (\<lambda>b. compareFn a b \<le> 0 \<or> compareFn b a \<le> 0) xs) xs \<and>
      list_all (\<lambda>a. list_all (\<lambda>b. list_all (\<lambda>c.
         compareFn a b > 0 \<or> compareFn b c > 0 \<or> compareFn a c \<le> 0) xs) xs) xs)"

text \<open>
  The ledger count the handler starts from: zero without a contract handle and zero when
  \<^verbatim>\<open>getReadStatus\<close> rejects.
\<close>

definition contractMessageCount :: "contract option \<Rightarrow> string \<Rightarrow> string \<Rightarrow> nat" where
  "contractMessageCount messageContract tid s =
     (case messageContract of
        None \<Rightarrow> 0
      | Some c \<Rightarrow> (case c tid s of None \<Rightarrow> 0 | Some totalMessages \<Rightarrow> totalMessages))"

definition newThreadFile :: "runtime \<Rightarrow> string \<Rightarrow> string list \<Rightarrow> int \<Rightarrow> threadFile" where
  "newThreadFile js tid ps now =
     \<lparr>threadId = tid, participants = sortParticipants js ps, version = 0, lastUpdated = now,
      messages = []\<rparr>"

definition getThreadFile :: "(s3op \<Rightarrow> bool) \<Rightarrow> store \<Rightarrow> string \<Rightarrow> threadFile option" where
  "getThreadFile fails objects key = (if fails (GetObject key) then None else objects key)"

text \<open>
  "Get or create shared thread file". \<^verbatim>\<open>sort\<close> works in place, so where a new file is
  made the signed message itself ends with its participants in sorted order; the second
  component is the signed message as the rest of the handler sees it.
\<close>

definition loadThreadFile ::
  "runtime \<Rightarrow> (s3op \<Rightarrow> bool) \<Rightarrow> store \<Rightarrow> string \<Rightarrow> signedMessage \<Rightarrow> nat \<Rightarrow> int \<Rightarrow> threadFile \<times> signedMessage" where
  "loadThreadFile js fails objects tid signedMessage msgCount now =
     (if msgCount > 0 then
        (case getThreadFile fails objects (threadKey tid) of
           Some threadFile \<Rightarrow>
             (if length (messages threadFile) > msgCount
              then (threadFile\<lparr>messages := take msgCount (messages threadFile)\<rparr>, signedMessage)
              else (threadFile, signedMessage))
         | None \<Rightarrow>
             (newThreadFile js tid (signedMessage.participants signedMessage) now,
              signedMessage\<lparr>signedMessage.participants :=
                 sortParticipants js (signedMessage.participants signedMessage)\<rparr>))
      else
        (newThreadFile js tid (signedMessage.participants signedMessage) now,
         signedMessage\<lparr>signedMessage.participants :=
            sortParticipants js (signedMessage.participants signedMessage)\<rparr>))"

definition expectedIndex :: "contract option \<Rightarrow> nat \<Rightarrow> threadFile \<Rightarrow> int" where
  "expectedIndex messageContract msgCount threadFile =
     (if messageContract \<noteq> None then int msgCount else int (length (messages threadFile)))"

definition verifyIndex :: "contract option \<Rightarrow> nat \<Rightarrow> threadFile \<Rightarrow> signedMessage \<Rightarrow> send_error option" where
  "verifyIndex messageContract msgCount threadFile signedMessage =
     (if index signedMessage \<noteq> expectedIndex messageContract msgCount threadFile
      then Some (IndexMismatch (expectedIndex messageContract msgCount threadFile) (index signedMessage))
      else None)"

definition verifyPrevHash :: "nat \<Rightarrow> threadFile \<Rightarrow> signedMessage \<Rightarrow> send_error option" where
  "verifyPrevHash msgCount threadFile signedMessage =
     (if msgCount > 0 then
        (let lastConfirmedIndex = msgCount - 1
         in if lastConfirmedIndex < length (messages threadFile) then
              (let lastMessage = messages threadFile ! lastConfirmedIndex
               in if prevHash signedMessage \<noteq> hash lastMessage
                  then Some (ChainBroken (prevHash signedMessage) (hash lastMessage))
                  else None)
            else Some (CannotFindConfirmedMessage (int lastConfirmedIndex)))
      else if prevHash signedMessage \<noteq> zeroHash then Some FirstMessageMustHaveZeroPrevHash
      else None)"

text \<open>
  \<^verbatim>\<open>uploadJSONToIPFS\<close>: the upload, then \<^verbatim>\<open>headObject\<close> for the content identifier that the
  pinning service attached to the object (\<open>metadata_cid\<close>), with the key standing in when
  there is none. \<open>None\<close> when either request fails.
\<close>

definition uploadJSONToIPFS ::
  "(s3op \<Rightarrow> bool) \<Rightarrow> (threadFile \<Rightarrow> string option) \<Rightarrow> threadFile \<Rightarrow> string \<Rightarrow> store \<Rightarrow> string option \<times> store" where
  "uploadJSONToIPFS fails metadata_cid data path objects =
     (if fails (Upload path) then (None, objects)
      else if fails (HeadObject path) then (None, objects(path \<mapsto> data))
      else (Some (case metadata_cid data of
                    None \<Rightarrow> path
                  | Some c \<Rightarrow> if c = [] then path else c),
            objects(path \<mapsto> data)))"

text \<open>
  The handler of \<^verbatim>\<open>POST /api/messages/send\<close>: its answer (an error is the 500 response
  with that message), the object store and the tracking table it leaves.
\<close>

definition sendMessage ::
  "runtime \<Rightarrow> contract option \<Rightarrow> (s3op \<Rightarrow> bool) \<Rightarrow> (threadFile \<Rightarrow> string option) \<Rightarrow> int \<Rightarrow> faults \<Rightarrow>
   signedMessage \<Rightarrow> string \<Rightarrow> store \<Rightarrow> database \<Rightarrow> (send_error + sent) \<times> store \<times> database" where
  "sendMessage js messageContract fails metadata_cid now throws signedMessage tid objects d =
     (let msgCount = contractMessageCount messageContract tid (signedMessage.sender signedMessage)
      in case loadThreadFile js fails objects tid signedMessage msgCount now of
        (threadFile, msg) \<Rightarrow>
          (case verifyIndex messageContract msgCount threadFile msg of
             Some e \<Rightarrow> (Inl e, objects, d)
           | None \<Rightarrow>
               (case verifyPrevHash msgCount threadFile msg of
                  Some e \<Rightarrow> (Inl e, objects, d)
                | None \<Rightarrow>
                    (let threadFile' = threadFile\<lparr>messages := messages threadFile @ [msg],
                                                   version := version threadFile + 1,
                                                   lastUpdated := now\<rparr>
                     in case uploadJSONToIPFS fails metadata_cid threadFile' (threadKey tid) objects of
                          (None, objects') \<Rightarrow> (Inl UploadFailed, objects', d)
                        | (Some c, objects') \<Rightarrow>
                            (Inr \<lparr>sent_messageId = messageId msg, threadCID = c,
                                  messageIndex = index msg,
                                  threadMessageCount = length (messages threadFile')\<rparr>,
                             objects',
                             snd (trackUpload throws now c tid (index msg)
                                    (signedMessage.sender msg) d))))))"

section \<open>Example inputs\<close>

text \<open>
  A ledger that answers \<open>k\<close> for every thread and one whose query always rejects; an
  object store without faults, empty or holding a three-message file for thread
  \<^verbatim>\<open>0xT\<close>; a pinning service that reports a fixed content identifier.
\<close>

definition ledger_says :: "nat \<Rightarrow> contract" where
  "ledger_says k t s = Some k"

definition ledger_rejects :: contract where
  "ledger_rejects t s = None"

definition no_failures :: "s3op \<Rightarrow> bool" where
  "no_failures q = False"

definition no_objects :: store where
  "no_objects key = None"

definition pinned_as :: "string \<Rightarrow> threadFile \<Rightarrow> string option" where
  "pinned_as c data = Some c"

text \<open>
  A runtime for the examples: lower-casing of the letters A to Z and comparison by code
  point, which is what \<^verbatim>\<open>toLowerCase\<close> and \<^verbatim>\<open>localeCompare\<close> do on the digits and letters of a
  hexadecimal address.
\<close>

definition lower_char :: "char \<Rightarrow> char" where
  "lower_char c = (if CHR ''A'' \<le> c \<and> c \<le> CHR ''Z'' then char_of (of_char c + (32::nat)) else c)"

definition code_point_compare :: "string \<Rightarrow> string \<Rightarrow> int" where
  "code_point_compare a b = (if a < b then - 1 else if a = b then 0 else 1)"

definition hex_runtime :: runtime where
  "hex_runtime = \<lparr>toLowerCase = map lower_char, localeCompare = code_point_compare\<rparr>"

definition msg0 :: signedMessage where
  "msg0 = \<lparr>messageId = ''m0'', sender = ''0xA'', participants = [''0xB'', ''0xa''], index = 0,
           prevHash = zeroHash, hash = ''0xh0''\<rparr>"

definition msg1 :: signedMessage where
  "msg1 = \<lparr>messageId = ''m1'', sender = ''0xA'', participants = [''0xB'', ''0xa''], index = 1,
           prevHash = ''0xh0'', hash = ''0xh1''\<rparr>"

definition msg2 :: signedMessage where
  "msg2 = \<lparr>messageId = ''m2'', sender = ''0xA'', participants = [''0xB'', ''0xa''], index = 2,
           prevHash = ''0xh1'', hash = ''0xh2''\<rparr>"

definition three_messages :: threadFile where
  "three_messages = \<lparr>threadId = ''0xT'', participants = [''0xa'', ''0xB''], version = 3,
                      lastUpdated = 0, messages = [msg0, msg1, msg2]\<rparr>"

definition objects3 :: store where
  "objects3 = no_objects(threadKey ''0xT'' \<mapsto> three_messages)"

text \<open>
  A table with the one row tracked for that thread, created at time 0, in a given status;
  twenty minutes later is the time 1200000.
\<close>

definition row_in :: "status \<Rightarrow> upload" where
  "row_in s = \<lparr>rowid = 1, cid = ''bafy1'', thread_id = ''0xT'', message_index = 0,
               upload.sender = ''0xA'', created_at = 0, confirmed_at = None, status = s\<rparr>"

definition db_in :: "status \<Rightarrow> database" where
  "db_in s = \<lparr>rows = [row_in s], seq = 1\<rparr>"

definition dry_options :: options where
  "dry_options = \<lparr>maxAgeMinutes = 15, dryRun = True\<rparr>"

text \<open>A table of two rows in the same state, the second tracked for the next message.\<close>

definition row2_in :: "status \<Rightarrow> upload" where
  "row2_in s = \<lparr>rowid = 2, cid = ''bafy2'', thread_id = ''0xT'', message_index = 1,
                upload.sender = ''0xA'', created_at = 0, confirmed_at = None, status = s\<rparr>"

definition db2_in :: "status \<Rightarrow> database" where
  "db2_in s = \<lparr>rows = [row_in s, row2_in s], seq = 2\<rparr>"

text \<open>A table in which one statement throws and no other.\<close>

definition only_throws :: "stmt \<Rightarrow> faults" where
  "only_throws q q' = (q' = q)"

section \<open>Tracking is keyed by the content identifier\<close>

lemma distinct_insertUpload:
  "distinct (map cid (rows d)) \<Longrightarrow> distinct (map cid (rows (insertUpload c t i s ts d)))"
  by (auto simp: insertUpload_def distinct_map_filter)

lemma distinct_trackUpload:
  "distinct (map cid (rows d)) \<Longrightarrow>
   distinct (map cid (rows (snd (trackUpload throws now c t i s d))))"
  by (simp add: trackUpload_def distinct_insertUpload)

lemma distinct_track_all:
  "distinct (map cid (rows d)) \<Longrightarrow> distinct (map cid (rows (track_all throws ks d)))"
  by (induction ks arbitrary: d) (simp_all add: distinct_trackUpload)

lemma rows_with_insertUpload:
  "rows_with c (insertUpload c t i s ts d) =
     [\<lparr>rowid = Suc (seq d), cid = c, thread_id = t, message_index = i, upload.sender = s,
       created_at = ts, confirmed_at = None, status = Pending\<rparr>]"
proof -
  have "filter (\<lambda>r. cid r = c) (filter (\<lambda>r. cid r \<noteq> c) (rows d)) = []"
    by (induction "rows d") (auto simp: filter_empty_conv)
  then show ?thesis
    by (simp add: rows_with_def insertUpload_def)
qed

lemma rows_without_insertUpload:
  "filter (\<lambda>r. cid r \<noteq> c) (rows (insertUpload c t i s ts d)) = filter (\<lambda>r. cid r \<noteq> c) (rows d)"
  by (simp add: insertUpload_def)

lemma length_filter_cid_le1:
  "distinct (map cid xs) \<Longrightarrow> length (filter (\<lambda>r. cid r = c) xs) \<le> Suc 0"
  by (induction xs) (auto simp: filter_empty_conv image_iff)

text \<open>
  C8. Tracking is keyed by the content identifier. A \<^verbatim>\<open>trackUpload\<close> that goes through
  leaves exactly one row for its cid, the row just written (status pending, no
  confirmation time), whatever the table held for that cid before, and leaves the rows
  of every other cid as they were. So a table with at most one row per cid keeps at most
  one row per cid after any sequence of \<^verbatim>\<open>trackUpload\<close> calls, whichever of them throw.
\<close>

theorem trackUpload_one_row_per_cid:
  assumes "distinct (map cid (rows d))"
  shows "length (rows_with c (track_all throws ks d)) \<le> 1 \<and>
         distinct (map cid (rows (track_all throws ks d))) \<and>
         rows_with c (snd (trackUpload no_faults now c t i s d)) =
           [\<lparr>rowid = Suc (seq d), cid = c, thread_id = t, message_index = i, upload.sender = s,
             created_at = now, confirmed_at = None, status = Pending\<rparr>] \<and>
         filter (\<lambda>r. cid r \<noteq> c) (rows (snd (trackUpload no_faults now c t i s d))) =
           filter (\<lambda>r. cid r \<noteq> c) (rows d)"
proof -
  have dist: "distinct (map cid (rows (track_all throws ks d)))"
    using assms by (rule distinct_track_all)
  then have one: "length (rows_with c (track_all throws ks d)) \<le> 1"
    using length_filter_cid_le1 [of "rows (track_all throws ks d)" c]
    by (simp add: rows_with_def)
  have new: "rows_with c (snd (trackUpload no_faults now c t i s d)) =
           [\<lparr>rowid = Suc (seq d), cid = c, thread_id = t, message_index = i, upload.sender = s,
             created_at = now, confirmed_at = None, status = Pending\<rparr>]"
    by (simp add: trackUpload_def no_faults_def rows_with_insertUpload)
  have others: "filter (\<lambda>r. cid r \<noteq> c) (rows (snd (trackUpload no_faults now c t i s d))) =
           filter (\<lambda>r. cid r \<noteq> c) (rows d)"
    by (simp add: trackUpload_def no_faults_def rows_without_insertUpload)
  from one dist new others show ?thesis by blast
qed

theorem trackUpload_one_row_per_cid_witness:
  "distinct (map cid (rows empty_db)) \<and>
   length (rows_with ''bafy1''
     (track_all no_faults
        [\<lparr>t_now = 1000, t_cid = ''bafy1'', t_thread = ''0xT'', t_index = 0, t_sender = ''0xA''\<rparr>,
         \<lparr>t_now = 2000, t_cid = ''bafy1'', t_thread = ''0xT'', t_index = 0, t_sender = ''0xA''\<rparr>]
        empty_db)) = 1"
proof -
  have h: "distinct (map cid (rows empty_db))"
    by (simp add: empty_db_def)
  have "length (rows_with ''bafy1''
     (track_all no_faults
        [\<lparr>t_now = 1000, t_cid = ''bafy1'', t_thread = ''0xT'', t_index = 0, t_sender = ''0xA''\<rparr>,
         \<lparr>t_now = 2000, t_cid = ''bafy1'', t_thread = ''0xT'', t_index = 0, t_sender = ''0xA''\<rparr>]
        empty_db)) \<le> 1"
    using trackUpload_one_row_per_cid [OF h] by blast
  moreover have "rows_with ''bafy1''
     (track_all no_faults
        [\<lparr>t_now = 1000, t_cid = ''bafy1'', t_thread = ''0xT'', t_index = 0, t_sender = ''0xA''\<rparr>,
         \<lparr>t_now = 2000, t_cid = ''bafy1'', t_thread = ''0xT'', t_index = 0, t_sender = ''0xA''\<rparr>]
        empty_db) \<noteq> []"
    by (simp add: rows_with_def trackUpload_def no_faults_def insertUpload_def empty_db_def)
  ultimately show ?thesis
    using h by (cases "rows_with ''bafy1''
     (track_all no_faults
        [\<lparr>t_now = 1000, t_cid = ''bafy1'', t_thread = ''0xT'', t_index = 0, t_sender = ''0xA''\<rparr>,
         \<lparr>t_now = 2000, t_cid = ''bafy1'', t_thread = ''0xT'', t_index = 0, t_sender = ''0xA''\<rparr>]
        empty_db)") simp_all
qed

section \<open>The send handler: index, chain link, truncation, new threads\<close>

lemma index_loadThreadFile:
  "index (snd (loadThreadFile js fails objects tid m n now)) = index m"
  by (simp add: loadThreadFile_def split: option.splits)

lemma prevHash_loadThreadFile:
  "prevHash (snd (loadThreadFile js fails objects tid m n now)) = prevHash m"
  by (simp add: loadThreadFile_def split: option.splits)

lemma loadThreadFile_zero:
  "loadThreadFile js fails objects tid m 0 now =
     (newThreadFile js tid (signedMessage.participants m) now,
      m\<lparr>signedMessage.participants := sortParticipants js (signedMessage.participants m)\<rparr>)"
  by (simp add: loadThreadFile_def)

lemma count_without_contract: "contractMessageCount None tid s = 0"
  by (simp add: contractMessageCount_def)

lemma expectedIndex_is_count:
  "expectedIndex mc (contractMessageCount mc tid s)
     (fst (loadThreadFile js fails objects tid m (contractMessageCount mc tid s) now)) =
   int (contractMessageCount mc tid s)"
  by (cases mc) (simp_all add: expectedIndex_def count_without_contract loadThreadFile_zero newThreadFile_def)

lemma sendMessage_index_mismatch:
  assumes "index m \<noteq> int (contractMessageCount mc tid (signedMessage.sender m))"
  shows "sendMessage js mc fails metadata_cid now throws m tid objects d =
           (Inl (IndexMismatch (int (contractMessageCount mc tid (signedMessage.sender m))) (index m)), objects, d)"
proof -
  let ?count = "contractMessageCount mc tid (signedMessage.sender m)"
  obtain tf msg where l: "loadThreadFile js fails objects tid m ?count now = (tf, msg)"
    by (cases "loadThreadFile js fails objects tid m ?count now")
  have e: "expectedIndex mc ?count tf = int ?count"
    using expectedIndex_is_count [of mc tid "signedMessage.sender m" js fails objects m now] l by simp
  have i: "index msg = index m"
    using index_loadThreadFile [of js fails objects tid m ?count now] l by simp
  show ?thesis
    using assms by (simp add: sendMessage_def Let_def l verifyIndex_def e i)
qed

lemma sendMessage_accepted_index:
  assumes "fst (sendMessage js mc fails metadata_cid now throws m tid objects d) = Inr r"
  shows "index m = int (contractMessageCount mc tid (signedMessage.sender m))"
proof (rule ccontr)
  assume "index m \<noteq> int (contractMessageCount mc tid (signedMessage.sender m))"
  from sendMessage_index_mismatch [OF this] assms show False by simp
qed


lemma verifyPrevHash_None_iff:
  "verifyPrevHash n tf m = None \<longleftrightarrow>
     (if n = 0 then prevHash m = zeroHash
      else n - 1 < length (messages tf) \<and> prevHash m = hash (messages tf ! (n - 1)))"
  by (simp add: verifyPrevHash_def Let_def)

lemma verifyPrevHash_cong:
  "prevHash msg = prevHash m \<Longrightarrow> verifyPrevHash n tf msg = verifyPrevHash n tf m"
  by (simp add: verifyPrevHash_def Let_def)

lemma sendMessage_accepted_link:
  assumes "fst (sendMessage js mc fails metadata_cid now throws m tid objects d) = Inr r"
  shows "verifyPrevHash (contractMessageCount mc tid (signedMessage.sender m))
           (fst (loadThreadFile js fails objects tid m (contractMessageCount mc tid (signedMessage.sender m)) now)) m = None"
proof -
  let ?count = "contractMessageCount mc tid (signedMessage.sender m)"
  obtain tf msg where l: "loadThreadFile js fails objects tid m ?count now = (tf, msg)"
    by (cases "loadThreadFile js fails objects tid m ?count now")
  have p: "prevHash msg = prevHash m"
    using prevHash_loadThreadFile [of js fails objects tid m ?count now] l by simp
  have "verifyPrevHash ?count tf msg = None"
    using assms by (simp add: sendMessage_def Let_def l split: option.splits)
  then have "verifyPrevHash ?count tf m = None"
    using verifyPrevHash_cong [OF p] by simp
  then show ?thesis by (simp add: l)
qed

lemma sendMessage_link_error:
  assumes i: "index m = int (contractMessageCount mc tid (signedMessage.sender m))"
    and v: "verifyPrevHash (contractMessageCount mc tid (signedMessage.sender m))
           (fst (loadThreadFile js fails objects tid m (contractMessageCount mc tid (signedMessage.sender m)) now)) m = Some e"
  shows "sendMessage js mc fails metadata_cid now throws m tid objects d = (Inl e, objects, d)"
proof -
  let ?count = "contractMessageCount mc tid (signedMessage.sender m)"
  obtain tf msg where l: "loadThreadFile js fails objects tid m ?count now = (tf, msg)"
    by (cases "loadThreadFile js fails objects tid m ?count now")
  have p: "prevHash msg = prevHash m"
    using prevHash_loadThreadFile [of js fails objects tid m ?count now] l by simp
  have e: "expectedIndex mc ?count tf = int ?count"
    using expectedIndex_is_count [of mc tid "signedMessage.sender m" js fails objects m now] l by simp
  have ix: "index msg = index m"
    using index_loadThreadFile [of js fails objects tid m ?count now] l by simp
  have "verifyPrevHash ?count tf msg = verifyPrevHash ?count tf m"
    using p by (rule verifyPrevHash_cong)
  then have "verifyPrevHash ?count tf msg = Some e"
    using v l by simp
  then show ?thesis
    using i by (simp add: sendMessage_def Let_def l verifyIndex_def e ix)
qed

lemma mset_insertSorted: "mset (insertSorted f x ys) = add_mset x (mset ys)"
  by (induction ys) simp_all

lemma mset_sortWith: "mset (sortWith f xs) = mset xs"
  by (induction xs) (simp_all add: sortWith_def mset_insertSorted)

lemma mset_sortParticipants: "mset (sortParticipants js ps) = mset ps"
  by (simp add: sortParticipants_def mset_sortWith)

lemma set_insertSorted: "set (insertSorted f x ys) = insert x (set ys)"
  by (induction ys) auto

lemma sorted_insertSorted:
  assumes total: "\<forall>a\<in>S. \<forall>b\<in>S. f a b \<le> 0 \<or> f b a \<le> 0"
    and trans: "\<forall>a\<in>S. \<forall>b\<in>S. \<forall>c\<in>S. f a b \<le> 0 \<longrightarrow> f b c \<le> 0 \<longrightarrow> f a c \<le> 0"
    and x: "x \<in> S"
  shows "set ys \<subseteq> S \<Longrightarrow> sorted_wrt (\<lambda>a b. f a b \<le> 0) ys \<Longrightarrow>
         sorted_wrt (\<lambda>a b. f a b \<le> 0) (insertSorted f x ys)"
proof (induction ys)
  case Nil
  then show ?case by simp
next
  case (Cons y ys)
  from Cons.prems have y: "y \<in> S" and ys: "set ys \<subseteq> S"
    and ysorted: "sorted_wrt (\<lambda>a b. f a b \<le> 0) ys"
    and yle: "\<forall>z\<in>set ys. f y z \<le> 0"
    by simp_all
  show ?case
  proof (cases "f x y \<le> 0")
    case True
    have "\<forall>z\<in>set ys. f x z \<le> 0"
      using True yle trans x y ys by blast
    with True ysorted yle show ?thesis by simp
  next
    case False
    with total x y have yx: "f y x \<le> 0"
      by blast
    have ih: "sorted_wrt (\<lambda>a b. f a b \<le> 0) (insertSorted f x ys)"
      using Cons.IH ys ysorted by blast
    have "\<forall>z\<in>set (insertSorted f x ys). f y z \<le> 0"
      using yx yle unfolding set_insertSorted by blast
    with False ih show ?thesis by simp
  qed
qed

lemma consistent_on_iff:
  "consistent_on f xs \<longleftrightarrow>
     (\<forall>a\<in>set xs. \<forall>b\<in>set xs. f a b \<le> 0 \<or> f b a \<le> 0) \<and>
     (\<forall>a\<in>set xs. \<forall>b\<in>set xs. \<forall>c\<in>set xs. f a b \<le> 0 \<longrightarrow> f b c \<le> 0 \<longrightarrow> f a c \<le> 0)"
  unfolding consistent_on_def list_all_iff not_le [symmetric] by blast

lemma sorted_foldr_insertSorted:
  assumes total: "\<forall>a\<in>S. \<forall>b\<in>S. f a b \<le> 0 \<or> f b a \<le> 0"
    and trans: "\<forall>a\<in>S. \<forall>b\<in>S. \<forall>c\<in>S. f a b \<le> 0 \<longrightarrow> f b c \<le> 0 \<longrightarrow> f a c \<le> 0"
  shows "set xs \<subseteq> S \<Longrightarrow> sorted_wrt (\<lambda>a b. f a b \<le> 0) (foldr (insertSorted f) xs [])"
proof (induction xs)
  case Nil
  then show ?case by simp
next
  case (Cons x xs)
  then have ih: "sorted_wrt (\<lambda>a b. f a b \<le> 0) (foldr (insertSorted f) xs [])"
    and x: "x \<in> S" and xs: "set xs \<subseteq> S"
    by simp_all
  have st: "set (foldr (insertSorted f) xs []) = set xs"
    using mset_sortWith [of f xs, THEN arg_cong, of set_mset] by (simp add: sortWith_def)
  have "sorted_wrt (\<lambda>a b. f a b \<le> 0) (insertSorted f x (foldr (insertSorted f) xs []))"
    using sorted_insertSorted [OF total trans x _ ih] xs st by blast
  then show ?case
    by simp
qed

lemma sorted_sortParticipants:
  assumes "consistent_on (compareParticipants js) ps"
  shows "sorted_wrt (\<lambda>a b. localeCompare js (toLowerCase js a) (toLowerCase js b) \<le> 0)
           (sortParticipants js ps)"
proof -
  from assms have
    a: "\<forall>a\<in>set ps. \<forall>b\<in>set ps. compareParticipants js a b \<le> 0 \<or> compareParticipants js b a \<le> 0"
    and b: "\<forall>a\<in>set ps. \<forall>b\<in>set ps. \<forall>c\<in>set ps. compareParticipants js a b \<le> 0 \<longrightarrow>
        compareParticipants js b c \<le> 0 \<longrightarrow> compareParticipants js a c \<le> 0"
    unfolding consistent_on_iff by blast+
  have "sorted_wrt (\<lambda>a b. compareParticipants js a b \<le> 0) (foldr (insertSorted (compareParticipants js)) ps [])"
    by (rule sorted_foldr_insertSorted [OF a b]) simp
  then show ?thesis
    by (simp add: sortParticipants_def sortWith_def compareParticipants_def)
qed



lemma sendMessage_response_depends_on_load:
  assumes "loadThreadFile js fails objects' tid m (contractMessageCount mc tid (signedMessage.sender m)) now =
           loadThreadFile js fails objects tid m (contractMessageCount mc tid (signedMessage.sender m)) now"
  shows "fst (sendMessage js mc fails metadata_cid now throws m tid objects' d) =
         fst (sendMessage js mc fails metadata_cid now throws m tid objects d) \<and>
         snd (snd (sendMessage js mc fails metadata_cid now throws m tid objects' d)) =
         snd (snd (sendMessage js mc fails metadata_cid now throws m tid objects d))"
  using assms
  by (simp add: sendMessage_def Let_def uploadJSONToIPFS_def split: prod.splits option.splits)

lemma contractMessageCount_answer:
  "contractMessageCount mc tid s =
     (case (case mc of None \<Rightarrow> None | Some c \<Rightarrow> c tid s) of None \<Rightarrow> 0 | Some totalMessages \<Rightarrow> totalMessages)"
  by (simp add: contractMessageCount_def split: option.splits)

text \<open>
  C1. The index the handler expects is the ledger's answer: the \<^verbatim>\<open>totalMessages\<close> that
  \<^verbatim>\<open>getReadStatus\<close> returns for the thread and the sender, and zero without a contract
  handle or when the query rejects, whatever the object store holds. A signed message
  whose index differs from it is answered with the index-mismatch error naming both
  numbers, and neither the object store nor the tracking table changes; an accepted
  message has its index equal to the ledger's answer.
\<close>

theorem sendMessage_checks_index:
  "(let answer = (case mc of None \<Rightarrow> None | Some c \<Rightarrow> c tid (signedMessage.sender m));
        n = (case answer of None \<Rightarrow> 0 | Some totalMessages \<Rightarrow> totalMessages);
        result = sendMessage js mc fails metadata_cid now throws m tid objects d
    in contractMessageCount mc tid (signedMessage.sender m) = n \<and>
       expectedIndex mc n (fst (loadThreadFile js fails objects tid m n now)) = int n \<and>
       (index m \<noteq> int n \<longrightarrow> result = (Inl (IndexMismatch (int n) (index m)), objects, d)) \<and>
       (fst result = Inr r \<longrightarrow> index m = int n))"
proof -
  define k where "k = contractMessageCount mc tid (signedMessage.sender m)"
  have n: "(case (case mc of None \<Rightarrow> None | Some c \<Rightarrow> c tid (signedMessage.sender m)) of
              None \<Rightarrow> 0 | Some totalMessages \<Rightarrow> totalMessages) = k"
    unfolding k_def by (rule contractMessageCount_answer [symmetric])
  have a: "expectedIndex mc k (fst (loadThreadFile js fails objects tid m k now)) = int k"
    unfolding k_def by (rule expectedIndex_is_count)
  have b: "sendMessage js mc fails metadata_cid now throws m tid objects d =
             (Inl (IndexMismatch (int k) (index m)), objects, d)" if "index m \<noteq> int k"
    using that unfolding k_def by (rule sendMessage_index_mismatch)
  have c: "index m = int k" if "fst (sendMessage js mc fails metadata_cid now throws m tid objects d) = Inr r"
    using that unfolding k_def by (rule sendMessage_accepted_index)
  have k: "contractMessageCount mc tid (signedMessage.sender m) = k"
    by (simp only: k_def)
  show ?thesis
    unfolding Let_def n using k a b c by blast
qed

lemma eval_msg0_sorted: "sortParticipants hex_runtime [''0xB'', ''0xa''] = [''0xa'', ''0xB'']"
  by code_simp

lemma eval_count_says: "contractMessageCount (Some (ledger_says k)) t s = k"
  by (simp add: contractMessageCount_def ledger_says_def)

lemma eval_load3:
  "loadThreadFile hex_runtime no_failures objects3 ''0xT'' m (Suc 0) now =
     (three_messages\<lparr>messages := [msg0]\<rparr>, m)"
  by (simp add: loadThreadFile_def getThreadFile_def no_failures_def objects3_def three_messages_def)

theorem sendMessage_checks_index_witness:
  "contractMessageCount (Some (ledger_says 2)) ''0xT'' (signedMessage.sender msg1) = 2 \<and>
   index msg1 \<noteq> 2 \<and>
   sendMessage hex_runtime (Some (ledger_says 2)) no_failures (pinned_as ''bafy1'') 5 no_faults msg1 ''0xT''
     objects3 empty_db = (Inl (IndexMismatch 2 1), objects3, empty_db) \<and>
   fst (sendMessage hex_runtime (Some (ledger_says 1)) no_failures (pinned_as ''bafy1'') 5 no_faults msg1
          ''0xT'' objects3 empty_db) =
     Inr \<lparr>sent_messageId = ''m1'', threadCID = ''bafy1'', messageIndex = 1, threadMessageCount = 2\<rparr> \<and>
   index msg1 = 1"
proof -
  have a: "index msg1 = 1"
    by (simp add: msg1_def)
  have b: "fst (sendMessage hex_runtime (Some (ledger_says 1)) no_failures (pinned_as ''bafy1'') 5 no_faults msg1
          ''0xT'' objects3 empty_db) =
     Inr \<lparr>sent_messageId = ''m1'', threadCID = ''bafy1'', messageIndex = 1, threadMessageCount = 2\<rparr>"
    by (simp add: sendMessage_def Let_def eval_count_says eval_load3 verifyIndex_def expectedIndex_def
        verifyPrevHash_def uploadJSONToIPFS_def no_failures_def pinned_as_def three_messages_def msg0_def msg1_def)
  from a b
    sendMessage_checks_index [where mc = "Some (ledger_says 2)" and tid = "''0xT''" and m = msg1
      and js = hex_runtime and fails = no_failures and objects = objects3 and now = 5
      and metadata_cid = "pinned_as ''bafy1''" and throws = no_faults and d = empty_db]
    sendMessage_checks_index [where mc = "Some (ledger_says 1)" and tid = "''0xT''" and m = msg1
      and js = hex_runtime and fails = no_failures and objects = objects3 and now = 5
      and metadata_cid = "pinned_as ''bafy1''" and throws = no_faults and d = empty_db]
  show ?thesis
    by (simp add: Let_def ledger_says_def msg1_def)
qed

text \<open>
  C2 as stated says every failed chain check is the chain-broken error. The handler has
  three throw sites. With one confirmed message on the ledger and no thread file in the
  store, the append fails with "Cannot find confirmed message at index 0", whatever the
  prevHash; with no confirmed message and a non-zero prevHash it fails with "First message
  must have zero prevHash".
\<close>

theorem sendMessage_chain_error_counterexample:
  "fst (sendMessage hex_runtime (Some (ledger_says 1)) no_failures (pinned_as ''bafy1'') 5 no_faults msg1 ''0xT'' no_objects empty_db) =
     Inl (CannotFindConfirmedMessage 0) \<and>
   fst (sendMessage hex_runtime (Some (ledger_says 0)) no_failures (pinned_as ''bafy1'') 5 no_faults
          (msg0\<lparr>prevHash := ''0xh9''\<rparr>) ''0xT'' no_objects empty_db) =
     Inl FirstMessageMustHaveZeroPrevHash"
  by (simp add: sendMessage_def Let_def contractMessageCount_def ledger_says_def msg0_def msg1_def
      loadThreadFile_def getThreadFile_def no_objects_def newThreadFile_def verifyIndex_def expectedIndex_def verifyPrevHash_def
      no_failures_def zeroHash_def)

lemma verifyPrevHash_first:
  "n = 0 \<Longrightarrow> prevHash m \<noteq> zeroHash \<Longrightarrow> verifyPrevHash n tf m = Some FirstMessageMustHaveZeroPrevHash"
  by (simp add: verifyPrevHash_def)

lemma verifyPrevHash_missing:
  assumes "0 < n" and "length (messages tf) < n"
  shows "verifyPrevHash n tf m = Some (CannotFindConfirmedMessage (int n - 1))"
proof -
  have "\<not> n - 1 < length (messages tf)" and "int (n - 1) = int n - 1"
    using assms by simp_all
  then show ?thesis
    using assms(1) by (simp add: verifyPrevHash_def Let_def)
qed

lemma verifyPrevHash_broken:
  assumes "0 < n" and "n \<le> length (messages tf)" and "prevHash m \<noteq> hash (messages tf ! (n - 1))"
  shows "verifyPrevHash n tf m = Some (ChainBroken (prevHash m) (hash (messages tf ! (n - 1))))"
proof -
  have "n - 1 < length (messages tf)"
    using assms by simp
  then show ?thesis
    using assms by (simp add: verifyPrevHash_def Let_def)
qed

text \<open>
  C2, amended. With \<open>n\<close> the confirmed count and \<open>tf\<close> the log in memory (the fetched log
  cut to \<open>n\<close> entries, or a new empty one): an accepted message has the zero hash as
  prevHash when \<open>n = 0\<close>, and the hash of entry \<open>n - 1\<close> of \<open>tf\<close> when \<open>n > 0\<close>. A message
  with the expected index that fails the check is rejected, store and table untouched:
  with "First message must have zero prevHash" when \<open>n = 0\<close>, with "Cannot find confirmed
  message" when \<open>tf\<close> has no entry \<open>n - 1\<close>, and with "Chain broken" when that entry's hash
  differs from prevHash.
\<close>

theorem sendMessage_chain_link:
  "(let n = contractMessageCount mc tid (signedMessage.sender m);
        tf = fst (loadThreadFile js fails objects tid m n now);
        result = sendMessage js mc fails metadata_cid now throws m tid objects d
    in (fst result = Inr r \<longrightarrow>
          (if n = 0 then prevHash m = zeroHash
           else n - 1 < length (messages tf) \<and> prevHash m = hash (messages tf ! (n - 1)))) \<and>
       (index m = int n \<and> n = 0 \<and> prevHash m \<noteq> zeroHash \<longrightarrow>
          result = (Inl FirstMessageMustHaveZeroPrevHash, objects, d)) \<and>
       (index m = int n \<and> 0 < n \<and> length (messages tf) < n \<longrightarrow>
          result = (Inl (CannotFindConfirmedMessage (int n - 1)), objects, d)) \<and>
       (index m = int n \<and> 0 < n \<and> n \<le> length (messages tf) \<and>
        prevHash m \<noteq> hash (messages tf ! (n - 1)) \<longrightarrow>
          result = (Inl (ChainBroken (prevHash m) (hash (messages tf ! (n - 1)))), objects, d)))"
proof -
  let ?n = "contractMessageCount mc tid (signedMessage.sender m)"
  let ?tf = "fst (loadThreadFile js fails objects tid m ?n now)"
  let ?result = "sendMessage js mc fails metadata_cid now throws m tid objects d"
  have acc: "if ?n = 0 then prevHash m = zeroHash
          else ?n - 1 < length (messages ?tf) \<and> prevHash m = hash (messages ?tf ! (?n - 1))"
    if "fst ?result = Inr r"
    using sendMessage_accepted_link [OF that] by (simp add: verifyPrevHash_None_iff)
  have rej: "?result = (Inl e, objects, d)"
    if "index m = int ?n" and "verifyPrevHash ?n ?tf m = Some e" for e
    using that by (rule sendMessage_link_error)
  have v0: "verifyPrevHash ?n ?tf m = Some FirstMessageMustHaveZeroPrevHash"
    if "?n = 0" and "prevHash m \<noteq> zeroHash"
    using that by (rule verifyPrevHash_first)
  have v1: "verifyPrevHash ?n ?tf m = Some (CannotFindConfirmedMessage (int ?n - 1))"
    if "0 < ?n" and "length (messages ?tf) < ?n"
    using that by (rule verifyPrevHash_missing)
  have v2: "verifyPrevHash ?n ?tf m = Some (ChainBroken (prevHash m) (hash (messages ?tf ! (?n - 1))))"
    if "0 < ?n" and "?n \<le> length (messages ?tf)" and "prevHash m \<noteq> hash (messages ?tf ! (?n - 1))"
    using that by (rule verifyPrevHash_broken)
  show ?thesis
    unfolding Let_def
  proof (intro conjI impI)
    assume "fst ?result = Inr r"
    then show "if ?n = 0 then prevHash m = zeroHash
          else ?n - 1 < length (messages ?tf) \<and> prevHash m = hash (messages ?tf ! (?n - 1))"
      by (rule acc)
  next
    assume "index m = int ?n \<and> ?n = 0 \<and> prevHash m \<noteq> zeroHash"
    then show "?result = (Inl FirstMessageMustHaveZeroPrevHash, objects, d)"
      using rej v0 by blast
  next
    assume "index m = int ?n \<and> 0 < ?n \<and> length (messages ?tf) < ?n"
    then show "?result = (Inl (CannotFindConfirmedMessage (int ?n - 1)), objects, d)"
      using rej v1 by blast
  next
    assume "index m = int ?n \<and> 0 < ?n \<and> ?n \<le> length (messages ?tf) \<and>
        prevHash m \<noteq> hash (messages ?tf ! (?n - 1))"
    then show "?result = (Inl (ChainBroken (prevHash m) (hash (messages ?tf ! (?n - 1)))), objects, d)"
      using rej v2 by blast
  qed
qed

theorem sendMessage_chain_link_witness:
  "fst (sendMessage hex_runtime (Some (ledger_says 1)) no_failures (pinned_as ''bafy2'') 5 no_faults msg1 ''0xT'' objects3 empty_db) =
     Inr \<lparr>sent_messageId = ''m1'', threadCID = ''bafy2'', messageIndex = 1, threadMessageCount = 2\<rparr> \<and>
   prevHash msg1 = hash (messages (fst (loadThreadFile hex_runtime no_failures objects3 ''0xT'' msg1 1 5)) ! 0) \<and>
   sendMessage hex_runtime (Some (ledger_says 1)) no_failures (pinned_as ''bafy2'') 5 no_faults (msg1\<lparr>prevHash := ''0xh7''\<rparr>) ''0xT'' objects3 empty_db =
     (Inl (ChainBroken ''0xh7'' ''0xh0''), objects3, empty_db)"
proof -
  have a: "fst (sendMessage hex_runtime (Some (ledger_says 1)) no_failures (pinned_as ''bafy2'') 5 no_faults msg1 ''0xT'' objects3 empty_db) =
     Inr \<lparr>sent_messageId = ''m1'', threadCID = ''bafy2'', messageIndex = 1, threadMessageCount = 2\<rparr>"
    by (simp add: sendMessage_def Let_def eval_count_says eval_load3 verifyIndex_def expectedIndex_def
        verifyPrevHash_def uploadJSONToIPFS_def no_failures_def pinned_as_def three_messages_def msg0_def msg1_def)
  have b: "index (msg1\<lparr>prevHash := ''0xh7''\<rparr>) = int (contractMessageCount (Some (ledger_says 1)) ''0xT'' (signedMessage.sender (msg1\<lparr>prevHash := ''0xh7''\<rparr>)))"
    by (simp add: eval_count_says msg1_def)
  from a b
    sendMessage_chain_link [where mc = "Some (ledger_says 1)" and tid = "''0xT''" and m = msg1
      and js = hex_runtime and fails = no_failures and objects = objects3 and now = 5
      and metadata_cid = "pinned_as ''bafy2''" and throws = no_faults and d = empty_db]
    sendMessage_chain_link [where mc = "Some (ledger_says 1)" and tid = "''0xT''"
      and m = "msg1\<lparr>prevHash := ''0xh7''\<rparr>"
      and js = hex_runtime and fails = no_failures and objects = objects3 and now = 5
      and metadata_cid = "pinned_as ''bafy2''" and throws = no_faults and d = empty_db]
  show ?thesis
    by (simp add: Let_def eval_count_says eval_load3 three_messages_def msg0_def msg1_def)
qed



lemma eval_msg0_consistent: "consistent_on (compareParticipants hex_runtime) [''0xB'', ''0xa'']"
  by code_simp

lemma eval_msg0_lowered:
  "sortWith (localeCompare hex_runtime) (map (toLowerCase hex_runtime) [''0xB'', ''0xa'']) = [''0xa'', ''0xb'']"
  by code_simp

text \<open>
  C9 as stated says the participants of the new thread file are lower-cased and sorted.
  The comparator of the sort lower-cases its arguments to compare them; the elements stay
  as they were sent. For the participants \<^verbatim>\<open>0xB\<close>, \<^verbatim>\<open>0xa\<close> the file holds \<^verbatim>\<open>0xa\<close>, \<^verbatim>\<open>0xB\<close>,
  where the lower-cased and sorted list is \<^verbatim>\<open>0xa\<close>, \<^verbatim>\<open>0xb\<close>.
\<close>

theorem newThreadFile_participants_counterexample:
  "threadFile.participants
     (fst (loadThreadFile hex_runtime no_failures no_objects ''0xT'' msg0
        (contractMessageCount (Some (ledger_says 0)) ''0xT'' (signedMessage.sender msg0)) 5)) =
     [''0xa'', ''0xB''] \<and>
   sortWith (localeCompare hex_runtime)
     (map (toLowerCase hex_runtime) (signedMessage.participants msg0)) = [''0xa'', ''0xb''] \<and>
   threadFile.participants
     (fst (loadThreadFile hex_runtime no_failures no_objects ''0xT'' msg0
        (contractMessageCount (Some (ledger_says 0)) ''0xT'' (signedMessage.sender msg0)) 5)) \<noteq>
     sortWith (localeCompare hex_runtime)
       (map (toLowerCase hex_runtime) (signedMessage.participants msg0))"
  using eval_msg0_lowered
  by (simp add: eval_count_says loadThreadFile_zero newThreadFile_def msg0_def eval_msg0_sorted)

text \<open>
  C9, amended. When the confirmed count is zero the handler does not read the object store:
  it starts from an empty log (version 0) whose participants are the given participants,
  each in the case it was sent, rearranged by the sort whose comparator is the runtime's
  \<^verbatim>\<open>localeCompare\<close> on the runtime's lower-cased forms. The list is a permutation of the given
  one, and where that comparator is consistent on the given participants (any two are
  comparable, and the comparison is transitive) each element is at or before every later
  one under it. The answer and the tracking table are the same as for an empty store, and
  an accepted append overwrites whatever the store held under the thread's key with the
  one-message file.
\<close>

theorem fresh_thread_when_unconfirmed:
  assumes "contractMessageCount mc tid (signedMessage.sender m) = 0"
  shows "(let ps = signedMessage.participants m;
              msg = m\<lparr>signedMessage.participants := sortParticipants js ps\<rparr>;
              result = sendMessage js mc fails metadata_cid now throws m tid objects d
          in loadThreadFile js fails objects tid m (contractMessageCount mc tid (signedMessage.sender m)) now =
               (\<lparr>threadId = tid, participants = sortParticipants js ps, version = 0, lastUpdated = now,
                 messages = []\<rparr>, msg) \<and>
             mset (sortParticipants js ps) = mset ps \<and>
             (consistent_on (compareParticipants js) ps \<longrightarrow>
                sorted_wrt (\<lambda>a b. localeCompare js (toLowerCase js a) (toLowerCase js b) \<le> 0)
                  (sortParticipants js ps)) \<and>
             fst result = fst (sendMessage js mc fails metadata_cid now throws m tid no_objects d) \<and>
             snd (snd result) = snd (snd (sendMessage js mc fails metadata_cid now throws m tid no_objects d)) \<and>
             (fst result = Inr r \<longrightarrow>
                fst (snd result) (threadKey tid) =
                  Some \<lparr>threadId = tid, participants = sortParticipants js ps, version = 1,
                        lastUpdated = now, messages = [msg]\<rparr>))"
proof -
  let ?ps = "signedMessage.participants m"
  let ?msg = "m\<lparr>signedMessage.participants := sortParticipants js ?ps\<rparr>"
  let ?result = "sendMessage js mc fails metadata_cid now throws m tid objects d"
  have l: "loadThreadFile js fails objects tid m (contractMessageCount mc tid (signedMessage.sender m)) now =
           (\<lparr>threadId = tid, participants = sortParticipants js ?ps, version = 0, lastUpdated = now,
                 messages = []\<rparr>, ?msg)" for objects
    using assms by (simp add: loadThreadFile_zero newThreadFile_def)
  have same: "loadThreadFile js fails objects tid m (contractMessageCount mc tid (signedMessage.sender m)) now =
              loadThreadFile js fails no_objects tid m (contractMessageCount mc tid (signedMessage.sender m)) now"
    by (simp only: l)
  note dep = sendMessage_response_depends_on_load [OF same, of metadata_cid throws d]
  have w: "fst (snd ?result) (threadKey tid) =
                  Some \<lparr>threadId = tid, participants = sortParticipants js ?ps, version = 1,
                        lastUpdated = now, messages = [?msg]\<rparr>"
    if "fst ?result = Inr r"
    using that l [of objects]
    by (simp add: sendMessage_def Let_def uploadJSONToIPFS_def split: option.splits if_splits)
  show ?thesis
    unfolding Let_def
    using l [of objects] dep w mset_sortParticipants [of js ?ps] sorted_sortParticipants [of js ?ps]
    by simp
qed

theorem fresh_thread_when_unconfirmed_witness:
  "contractMessageCount (Some (ledger_says 0)) ''0xT'' (signedMessage.sender msg0) = 0 \<and>
   consistent_on (compareParticipants hex_runtime) (signedMessage.participants msg0) \<and>
   fst (loadThreadFile hex_runtime no_failures objects3 ''0xT'' msg0
          (contractMessageCount (Some (ledger_says 0)) ''0xT'' (signedMessage.sender msg0)) 5) =
     \<lparr>threadId = ''0xT'', participants = [''0xa'', ''0xB''], version = 0, lastUpdated = 5, messages = []\<rparr> \<and>
   sorted_wrt (\<lambda>a b. localeCompare hex_runtime (toLowerCase hex_runtime a) (toLowerCase hex_runtime b) \<le> 0)
     [''0xa'', ''0xB'']"
proof -
  have a: "contractMessageCount (Some (ledger_says 0)) ''0xT'' (signedMessage.sender msg0) = 0"
    by (simp add: eval_count_says)
  have b: "consistent_on (compareParticipants hex_runtime) (signedMessage.participants msg0)"
    using eval_msg0_consistent by (simp add: msg0_def)
  from fresh_thread_when_unconfirmed [OF a, where js = hex_runtime and fails = no_failures
      and objects = objects3 and now = 5] a b
  show ?thesis
    by (simp add: Let_def msg0_def eval_msg0_sorted)
qed

section \<open>The cleanup job: both loops, row by row\<close>

subsection \<open>Rows keep their cid\<close>

lemma cid_set_confirmed [simp]: "cid (set_confirmed ts c r) = cid r"
  by (simp add: set_confirmed_def)

lemma cid_set_status [simp]: "cid (set_status s c r) = cid r"
  by (simp add: set_status_def)

lemma cid_check_row [simp]: "cid (check_row mc now throws u r) = cid r"
  by (simp add: check_row_def)

lemma cid_fold_check_row [simp]: "cid (fold (check_row mc now throws) us r) = cid r"
  by (induction us arbitrary: r) simp_all

lemma check_row_other: "cid u \<noteq> cid r \<Longrightarrow> check_row mc now throws u r = r"
  by (simp add: check_row_def set_confirmed_def set_status_def)

lemma fold_check_row_untouched:
  "cid r \<notin> cid ` set us \<Longrightarrow> fold (check_row mc now throws) us r = r"
  by (induction us arbitrary: r) (auto simp: check_row_other)

lemma fold_check_row_once:
  "distinct (map cid us) \<Longrightarrow> u \<in> set us \<Longrightarrow> cid u = cid r \<Longrightarrow>
   fold (check_row mc now throws) us r = check_row mc now throws u r"
proof (induction us arbitrary: r)
  case Nil
  then show ?case by simp
next
  case (Cons a us)
  show ?case
  proof (cases "a = u")
    case True
    with Cons.prems have "cid (check_row mc now throws u r) \<notin> cid ` set us"
      by auto
    then show ?thesis
      using True by (simp add: fold_check_row_untouched)
  next
    case False
    with Cons.prems have u: "u \<in> set us"
      by simp
    from Cons.prems have d: "distinct (map cid us)" and "cid a \<notin> cid ` set us"
      by simp_all
    with u Cons.prems(3) have ne: "cid a \<noteq> cid r"
      by (metis imageI)
    show ?thesis
      using Cons.IH [OF d u Cons.prems(3)] ne by (simp add: check_row_other)
  qed
qed

subsection \<open>The first loop, row by row\<close>

lemma check_row_fun:
  "check_row mc now throws u =
     (if on_chain mc u then
        (if throws (MarkConfirmed (cid u)) then id else set_confirmed now (cid u))
      else
        (if throws (MarkOrphaned (cid u)) then id else set_status Orphaned (cid u)))"
  by (rule ext) (simp add: check_row_def)

lemma rows_checkUpload:
  "rows (db (checkUpload mc now throws u st)) = map (check_row mc now throws u) (rows (db st))"
  by (simp add: checkUpload_def check_row_fun on_chain_def markConfirmed_def markOrphaned_def)

lemma rows_checkStale:
  "rows (db (checkStale mc now throws us st)) = map (fold (check_row mc now throws) us) (rows (db st))"
  by (induction us arbitrary: st) (simp_all add: rows_checkUpload)

lemma s3_checkStale: "s3 (checkStale mc now throws us st) = s3 st"
  by (induction us arbitrary: st) (simp_all add: checkUpload_def)

lemma calls_checkUpload:
  "calls (checkUpload mc now throws u st) = calls st @ check_calls mc u"
  by (simp add: checkUpload_def check_calls_def on_chain_def)

lemma calls_checkStale:
  "calls (checkStale mc now throws us st) = calls st @ concat (map (check_calls mc) us)"
  by (induction us arbitrary: st) (simp_all add: calls_checkUpload)

lemma getStaleUploads_filter:
  "getStaleUploads now maxAge d = filter (is_stale now maxAge) (rows d)"
  unfolding getStaleUploads_def getPendingUploads_def
  by (rule filter_cong [OF refl]) (simp add: is_stale_def)

lemma cid_inj_rows:
  "distinct (map cid xs) \<Longrightarrow> a \<in> set xs \<Longrightarrow> b \<in> set xs \<Longrightarrow> cid a = cid b \<Longrightarrow> a = b"
  by (meson distinct_map inj_onD)

lemma fold_check_row_filter:
  assumes "distinct (map cid xs)" and "r \<in> set xs"
  shows "fold (check_row mc now throws) (filter P xs) r =
           (if P r then check_row mc now throws r r else r)"
proof (cases "P r")
  case True
  have "distinct (map cid (filter P xs))"
    using assms(1) by (rule distinct_map_filter)
  moreover have "r \<in> set (filter P xs)"
    using True assms(2) by simp
  ultimately show ?thesis
    using True by (simp add: fold_check_row_once)
next
  case False
  have "cid r \<notin> cid ` set (filter P xs)"
  proof
    assume "cid r \<in> cid ` set (filter P xs)"
    then obtain u where u: "u \<in> set xs" "P u" "cid u = cid r" by auto
    then have "u = r" using cid_inj_rows [OF assms(1) u(1) assms(2)] by simp
    with u False show False by simp
  qed
  then show ?thesis
    using False by (simp add: fold_check_row_untouched)
qed

lemma rows_after_checks:
  assumes "distinct (map cid (rows (db st)))"
  shows "rows (db (checkStale mc now throws (filter P (rows (db st))) st)) =
           map (\<lambda>r. if P r then check_row mc now throws r r else r) (rows (db st))"
  unfolding rows_checkStale
  by (rule map_cong [OF refl]) (simp add: fold_check_row_filter [OF assms])

subsection \<open>The second loop, row by row\<close>

lemma reached_simps [simp]: "reached (Inl a) = a" "reached (Inr a) = a"
  by (simp_all add: reached_def)

lemma unpinOrphaned_Cons:
  "unpinOrphaned throws False bucket (u # os) st =
     (if throws (MarkUnpinned (cid u))
      then Inl (st\<lparr>calls := calls st @ unpin_calls u\<rparr>)
      else unpinOrphaned throws False bucket os
             (st\<lparr>db := markUnpinned (cid u) (db st),
                 tally := (tally st)\<lparr>unpinned := Suc (unpinned (tally st))\<rparr>,
                 calls := calls st @ unpin_calls u\<rparr>))"
  by (simp add: unpinUpload_def unpinFromFilebase_def unpin_calls_def)

lemma unpinOrphaned_dry: "unpinOrphaned throws True bucket os st = Inr st"
  by (induction os) (simp_all add: unpinUpload_def)

lemma fold_unpin_row:
  "fold (\<lambda>u. set_status Unpinned (cid u)) ps r =
     (if cid r \<in> cid ` set ps then r\<lparr>status := Unpinned\<rparr> else r)"
proof (induction ps arbitrary: r)
  case Nil
  then show ?case by simp
next
  case (Cons a ps)
  show ?case
    by (simp add: Cons.IH) (auto simp: set_status_def)
qed

lemma db_unpinOrphaned:
  "db (reached (unpinOrphaned throws False bucket os st)) =
     (db st)\<lparr>rows := map (fold (\<lambda>u. set_status Unpinned (cid u))
                            (takeWhile (\<lambda>u. \<not> throws (MarkUnpinned (cid u))) os))
                     (rows (db st))\<rparr>"
proof (induction os arbitrary: st)
  case Nil
  then show ?case by simp
next
  case (Cons u os)
  show ?case
    by (simp add: unpinOrphaned_Cons Cons.IH markUnpinned_def del: unpinOrphaned.simps(2))
qed

lemma s3_unpinOrphaned: "s3 (reached (unpinOrphaned throws dry bucket os st)) = s3 st"
proof (cases dry)
  case True
  then show ?thesis by (simp add: unpinOrphaned_dry)
next
  case False
  have "s3 (reached (unpinOrphaned throws False bucket os st)) = s3 st"
    by (induction os arbitrary: st) (simp_all add: unpinOrphaned_Cons del: unpinOrphaned.simps(2))
  with False show ?thesis by simp
qed

lemma calls_unpinOrphaned:
  "\<exists>cs. calls (reached (unpinOrphaned throws dry bucket os st)) = calls st @ cs \<and> list_all is_unpin cs"
proof (induction os arbitrary: st)
  case Nil
  then show ?case by simp
next
  case (Cons u os)
  show ?case
  proof (cases "dry \<or> throws (MarkUnpinned (cid u))")
    case True
    then show ?thesis
      by (cases dry) (auto simp: unpinOrphaned_dry unpinOrphaned_Cons unpin_calls_def simp del: unpinOrphaned.simps(2))
  next
    case False
    let ?st = "st\<lparr>db := markUnpinned (cid u) (db st),
                  tally := (tally st)\<lparr>unpinned := Suc (unpinned (tally st))\<rparr>,
                  calls := calls st @ [UnpinFromFilebase (cid u), Run (MarkUnpinned (cid u))]\<rparr>"
    from Cons.IH [of ?st] obtain cs where
      cs: "calls (reached (unpinOrphaned throws dry bucket os ?st)) = calls ?st @ cs" "list_all is_unpin cs"
      by blast
    have "unpinOrphaned throws dry bucket (u # os) st = unpinOrphaned throws dry bucket os ?st"
      using False by (simp add: unpinOrphaned_Cons unpin_calls_def del: unpinOrphaned.simps(2))
    with cs show ?thesis
      by (intro exI [of _ "[UnpinFromFilebase (cid u), Run (MarkUnpinned (cid u))] @ cs"]) simp
  qed
qed

lemma unpinOrphaned_all_succeed:
  "list_all (\<lambda>u. \<not> throws (MarkUnpinned (cid u))) os \<Longrightarrow>
   unpinOrphaned throws False bucket os st =
     Inr (st\<lparr>db := (db st)\<lparr>rows := map (fold (\<lambda>u. set_status Unpinned (cid u)) os) (rows (db st))\<rparr>,
             tally := (tally st)\<lparr>unpinned := unpinned (tally st) + length os\<rparr>,
             calls := calls st @ concat (map unpin_calls os)\<rparr>)"
  by (induction os arbitrary: st)
     (simp_all add: unpinOrphaned_Cons markUnpinned_def del: unpinOrphaned.simps(2))

lemma tally_unpinOrphaned:
  "confirmed (tally (reached (unpinOrphaned throws dry bucket os st))) = confirmed (tally st) \<and>
   orphaned (tally (reached (unpinOrphaned throws dry bucket os st))) = orphaned (tally st) \<and>
   errors (tally (reached (unpinOrphaned throws dry bucket os st))) = errors (tally st)"
proof (cases dry)
  case True
  then show ?thesis by (simp add: unpinOrphaned_dry)
next
  case False
  have "confirmed (tally (reached (unpinOrphaned throws False bucket os st))) = confirmed (tally st) \<and>
   orphaned (tally (reached (unpinOrphaned throws False bucket os st))) = orphaned (tally st) \<and>
   errors (tally (reached (unpinOrphaned throws False bucket os st))) = errors (tally st)"
    by (induction os arbitrary: st) (simp_all add: unpinOrphaned_Cons del: unpinOrphaned.simps(2))
  with False show ?thesis by simp
qed

subsection \<open>Counting in the first loop\<close>

lemma tally_checkStale:
  "confirmed (tally (checkStale mc now throws us st)) =
     confirmed (tally st) + length (filter (\<lambda>u. on_chain mc u \<and> \<not> throws (MarkConfirmed (cid u))) us) \<and>
   orphaned (tally (checkStale mc now throws us st)) =
     orphaned (tally st) + length (filter (\<lambda>u. \<not> on_chain mc u \<and> \<not> throws (MarkOrphaned (cid u))) us) \<and>
   errors (tally (checkStale mc now throws us st)) =
     errors (tally st) +
     length (filter (\<lambda>u. throws (if on_chain mc u then MarkConfirmed (cid u) else MarkOrphaned (cid u))) us) \<and>
   unpinned (tally (checkStale mc now throws us st)) = unpinned (tally st)"
  by (induction us arbitrary: st) (simp_all add: checkUpload_def on_chain_def)

subsection \<open>The whole sweep\<close>

lemma rows_runCleanup:
  assumes "distinct (map cid (rows d))"
  shows "rows (db (fst (runCleanup mc store bucket opts now throws d))) =
    (if throws GetPendingUploads then rows d
     else
       let rows1 = map (\<lambda>r. if is_stale now (maxAgeMinutes opts) r then check_row mc now throws r r else r) (rows d)
       in if throws GetOrphanedUploads \<or> dryRun opts then rows1
          else map (\<lambda>r. if cid r \<in> cid ` set (takeWhile (\<lambda>u. \<not> throws (MarkUnpinned (cid u)))
                                                 (filter (\<lambda>r. status r = Orphaned) rows1))
                         then r\<lparr>status := Unpinned\<rparr> else r) rows1)"
proof -
  let ?st0 = "\<lparr>db = d, s3 = store,
                tally = \<lparr>confirmed = 0, orphaned = 0, unpinned = 0, errors = 0\<rparr>,
                calls = [Run GetPendingUploads]\<rparr>"
  let ?st1 = "checkStale mc now throws (getStaleUploads now (maxAgeMinutes opts) d) ?st0"
  let ?st1' = "?st1\<lparr>calls := calls ?st1 @ [Run GetOrphanedUploads]\<rparr>"
  let ?rows1 = "map (\<lambda>r. if is_stale now (maxAgeMinutes opts) r then check_row mc now throws r r else r) (rows d)"
  have r1: "rows (db ?st1) = ?rows1"
    using rows_after_checks [of ?st0 mc now throws "is_stale now (maxAgeMinutes opts)"] assms
    by (simp add: getStaleUploads_filter)
  have final: "db (fst (runCleanup mc store bucket opts now throws d)) =
      (if throws GetPendingUploads then d
       else if throws GetOrphanedUploads then db ?st1
       else db (reached (unpinOrphaned throws (dryRun opts) bucket (getOrphanedUploads (db ?st1)) ?st1')))"
    by (simp add: runCleanup_def Let_def reached_def split: sum.splits)
  show ?thesis
  proof (cases "throws GetPendingUploads \<or> throws GetOrphanedUploads")
    case True
    then show ?thesis
      using final r1 by (auto simp: Let_def)
  next
    case False
    show ?thesis
    proof (cases "dryRun opts")
      case True
      then show ?thesis
        using False final r1 by (simp add: Let_def unpinOrphaned_dry)
    next
      case dry: False
      then show ?thesis
        using False final r1
        by (simp add: Let_def db_unpinOrphaned getOrphanedUploads_def fold_unpin_row cong: map_cong)
    qed
  qed
qed

lemma s3_runCleanup: "s3 (fst (runCleanup mc store bucket opts now throws d)) = store"
proof -
  let ?st0 = "\<lparr>db = d, s3 = store,
                tally = \<lparr>confirmed = 0, orphaned = 0, unpinned = 0, errors = 0\<rparr>,
                calls = [Run GetPendingUploads]\<rparr>"
  let ?st1 = "checkStale mc now throws (getStaleUploads now (maxAgeMinutes opts) d) ?st0"
  let ?st1' = "?st1\<lparr>calls := calls ?st1 @ [Run GetOrphanedUploads]\<rparr>"
  have "s3 (reached (unpinOrphaned throws (dryRun opts) bucket (getOrphanedUploads (db ?st1)) ?st1')) = store"
    by (simp add: s3_unpinOrphaned s3_checkStale)
  then show ?thesis
    by (simp add: runCleanup_def Let_def s3_checkStale reached_def split: sum.splits)
qed

subsection \<open>The status of a cid\<close>

lemma find_cid:
  "distinct (map cid xs) \<Longrightarrow> r \<in> set xs \<Longrightarrow> find (\<lambda>x. cid x = cid r) xs = Some r"
  by (induction xs) (auto simp: image_iff)

lemma status_of_map:
  assumes "distinct (map cid xs)" and "r \<in> set xs" and "\<And>x. cid (f x) = cid x"
    and "rows d' = map f xs"
  shows "status_of (cid r) d' = Some (status (f r))"
proof -
  have "find (\<lambda>x. cid x = cid r) (map f xs) = map_option f (find (\<lambda>x. cid x = cid r) xs)"
    using assms(3) by (induction xs) simp_all
  then show ?thesis
    using find_cid [OF assms(1,2)] by (simp add: status_of_def assms(4))
qed

lemma cid_checked [simp]: "cid (checked mc now maxAge throws r) = cid r"
  by (simp add: checked_def)

lemma status_checked:
  "status (checked mc now maxAge throws r) =
     (if is_stale now maxAge r then
        (if on_chain mc r then (if throws (MarkConfirmed (cid r)) then Pending else Confirmed)
         else (if throws (MarkOrphaned (cid r)) then Pending else Orphaned))
      else status r)"
  by (simp add: checked_def check_row_def set_confirmed_def set_status_def is_stale_def)

lemma rows_runCleanup_checked:
  assumes "distinct (map cid (rows d))"
  shows "rows (db (fst (runCleanup mc store bucket opts now throws d))) =
    (if throws GetPendingUploads then rows d
     else if throws GetOrphanedUploads \<or> dryRun opts
       then map (checked mc now (maxAgeMinutes opts) throws) (rows d)
       else map (\<lambda>r. if cid r \<in> cid ` set (takeWhile (\<lambda>u. \<not> throws (MarkUnpinned (cid u)))
                       (filter (\<lambda>r. status r = Orphaned)
                          (map (checked mc now (maxAgeMinutes opts) throws) (rows d))))
                     then r\<lparr>status := Unpinned\<rparr> else r)
                (map (checked mc now (maxAgeMinutes opts) throws) (rows d)))"
proof -
  have "(\<lambda>r. if is_stale now (maxAgeMinutes opts) r then check_row mc now throws r r else r) =
        checked mc now (maxAgeMinutes opts) throws"
    by (rule ext) (simp add: checked_def)
  then show ?thesis
    using rows_runCleanup [OF assms, of mc store bucket opts now throws] by (simp add: Let_def)
qed

text \<open>The row of \<open>r\<close> after the sweep: as the first loop left it, or unpinned from orphaned.\<close>

lemma status_after_sweep:
  assumes d: "distinct (map cid (rows d))" and r: "r \<in> set (rows d)"
  shows "\<exists>s'. status_of (cid r) (db (fst (runCleanup mc store bucket opts now throws d))) = Some s' \<and>
           (if throws GetPendingUploads then s' = status r
            else s' = status (checked mc now (maxAgeMinutes opts) throws r) \<or>
                 (status (checked mc now (maxAgeMinutes opts) throws r) = Orphaned \<and> s' = Unpinned \<and>
                  \<not> dryRun opts \<and> \<not> throws GetOrphanedUploads))"
proof -
  let ?c = "checked mc now (maxAgeMinutes opts) throws"
  let ?rows1 = "map ?c (rows d)"
  let ?ps = "takeWhile (\<lambda>u. \<not> throws (MarkUnpinned (cid u))) (filter (\<lambda>r. status r = Orphaned) ?rows1)"
  let ?u = "\<lambda>r. if cid r \<in> cid ` set ?ps then r\<lparr>status := Unpinned\<rparr> else r"
  let ?final = "db (fst (runCleanup mc store bucket opts now throws d))"
  note rows = rows_runCleanup_checked [OF d, of mc store bucket opts now throws]
  show ?thesis
  proof (cases "throws GetPendingUploads")
    case True
    then have "rows ?final = map id (rows d)" using rows by simp
    from status_of_map [OF d r _ this] True show ?thesis by simp
  next
    case gp: False
    show ?thesis
    proof (cases "throws GetOrphanedUploads \<or> dryRun opts")
      case True
      then have "rows ?final = map ?c (rows d)" using rows gp by simp
      from status_of_map [OF d r _ this] gp show ?thesis by simp
    next
      case False
      then have "rows ?final = map (?u \<circ> ?c) (rows d)" using rows gp by simp
      from status_of_map [OF d r _ this]
      have s: "status_of (cid r) ?final = Some (status (?u (?c r)))" by simp
      have d1: "distinct (map cid ?rows1)" using d by (simp add: comp_def)
      have "status (?c r) = Orphaned" if "cid (?c r) \<in> cid ` set ?ps"
      proof -
        from that obtain p where p: "p \<in> set ?ps" "cid p = cid (?c r)" by auto
        from p(1) have "p \<in> set (filter (\<lambda>r. status r = Orphaned) ?rows1)"
          by (blast dest: set_takeWhileD)
        then have pin: "p \<in> set ?rows1" and po: "status p = Orphaned" by simp_all
        have "?c r \<in> set ?rows1" using r by simp
        from cid_inj_rows [OF d1 pin this p(2)] po show ?thesis by simp
      qed
      then show ?thesis
        using s gp False by auto
    qed
  qed
qed

subsection \<open>The calls of a sweep\<close>

lemma unpin_not_check: "is_unpin x \<Longrightarrow> \<not> is_check x"
  by (cases x rule: is_unpin.cases) simp_all

lemma check_calls_kinds:
  "filter is_check (check_calls mc u) = check_calls mc u" "filter is_unpin (check_calls mc u) = []"
  by (simp_all add: check_calls_def checkOnChain_calls_def split: option.splits)

lemma unpin_calls_kinds:
  "filter is_unpin (unpin_calls u) = unpin_calls u" "filter is_check (unpin_calls u) = []"
  by (simp_all add: unpin_calls_def)

lemma filter_concat_all: "(\<And>x. filter P (f x) = f x) \<Longrightarrow> filter P (concat (map f xs)) = concat (map f xs)"
  by (induction xs) simp_all

lemma filter_concat_none: "(\<And>x. filter P (f x) = []) \<Longrightarrow> filter P (concat (map f xs)) = []"
  by (induction xs) simp_all

lemma calls_runCleanup_split:
  "\<exists>B. calls (fst (runCleanup mc store bucket opts now throws d)) =
           (if throws GetPendingUploads then [Run GetPendingUploads]
            else Run GetPendingUploads #
                 concat (map (check_calls mc) (getStaleUploads now (maxAgeMinutes opts) d)) @
                 [Run GetOrphanedUploads]) @ B \<and>
         filter is_check B = []"
proof -
  let ?st0 = "\<lparr>db = d, s3 = store,
                tally = \<lparr>confirmed = 0, orphaned = 0, unpinned = 0, errors = 0\<rparr>,
                calls = [Run GetPendingUploads]\<rparr>"
  let ?st1 = "checkStale mc now throws (getStaleUploads now (maxAgeMinutes opts) d) ?st0"
  let ?st1' = "?st1\<lparr>calls := calls ?st1 @ [Run GetOrphanedUploads]\<rparr>"
  let ?r = "unpinOrphaned throws (dryRun opts) bucket (getOrphanedUploads (db ?st1)) ?st1'"
  let ?A = "Run GetPendingUploads #
            concat (map (check_calls mc) (getStaleUploads now (maxAgeMinutes opts) d)) @
            [Run GetOrphanedUploads]"
  have A: "calls ?st1' = ?A"
    by (simp add: calls_checkStale)
  from calls_unpinOrphaned [of throws "dryRun opts" bucket "getOrphanedUploads (db ?st1)" ?st1']
  obtain cs where cs: "calls (reached ?r) = calls ?st1' @ cs" "list_all is_unpin cs"
    by blast
  have B: "filter is_check cs = []" "filter is_check (cs @ [Run GetStats]) = []"
    using cs(2) unpin_not_check by (auto simp: filter_empty_conv list_all_iff)
  have split: "\<exists>B. xs = A @ B \<and> filter is_check B = []"
    if "xs = A @ B" and "filter is_check B = []" for xs A B
    using that by blast
  show ?thesis
  proof (cases "throws GetPendingUploads")
    case True
    then have "calls (fst (runCleanup mc store bucket opts now throws d)) = [Run GetPendingUploads] @ []"
      by (simp add: runCleanup_def)
    then show ?thesis using True by (intro exI [of _ "[]"]) simp
  next
    case gp: False
    show ?thesis
    proof (cases "throws GetOrphanedUploads")
      case True
      then have "calls (fst (runCleanup mc store bucket opts now throws d)) = ?A @ []"
        using gp A by (simp add: runCleanup_def Let_def)
      then show ?thesis using gp by (intro exI [of _ "[]"]) simp
    next
      case go: False
      show ?thesis
      proof (cases ?r)
        case (Inl st2)
        then have "calls (fst (runCleanup mc store bucket opts now throws d)) = ?A @ cs"
          using gp go cs(1) A by (simp add: runCleanup_def Let_def)
        then show ?thesis using gp B(1) by (intro exI [of _ cs]) simp
      next
        case (Inr st2)
        then have "calls (fst (runCleanup mc store bucket opts now throws d)) = ?A @ (cs @ [Run GetStats])"
          using gp go cs(1) A by (simp add: runCleanup_def Let_def)
        then show ?thesis using gp B(2) by (intro exI [of _ "cs @ [Run GetStats]"]) simp
      qed
    qed
  qed
qed

lemma checks_precede_unpins:
  assumes "xs = A @ B" and "filter is_unpin A = []" and "filter is_check B = []"
  shows "list_all (\<lambda>x. \<not> is_check x) (dropWhile (\<lambda>x. \<not> is_unpin x) xs)"
proof -
  have "dropWhile (\<lambda>x. \<not> is_unpin x) xs = dropWhile (\<lambda>x. \<not> is_unpin x) B"
    using assms(1,2) by (simp add: filter_empty_conv dropWhile_append)
  moreover have "list_all (\<lambda>x. \<not> is_check x) B"
    using assms(3) by (simp add: filter_empty_conv list_all_iff)
  ultimately show ?thesis
    by (auto simp: list_all_iff dest: set_dropWhileD)
qed

lemma runCleanup_working_table:
  assumes nf: "\<And>q. \<not> throws q"
  shows "runCleanup mc store bucket opts now throws d =
    (let st1 = checkStale mc now throws (getStaleUploads now (maxAgeMinutes opts) d)
                 \<lparr>db = d, s3 = store,
                  tally = \<lparr>confirmed = 0, orphaned = 0, unpinned = 0, errors = 0\<rparr>,
                  calls = [Run GetPendingUploads]\<rparr>;
         os = getOrphanedUploads (db st1)
     in if dryRun opts
        then (st1\<lparr>calls := calls st1 @ [Run GetOrphanedUploads, Run GetStats]\<rparr>, Some (tally st1))
        else (st1\<lparr>db := (db st1)\<lparr>rows := map (fold (\<lambda>u. set_status Unpinned (cid u)) os) (rows (db st1))\<rparr>,
                  tally := (tally st1)\<lparr>unpinned := unpinned (tally st1) + length os\<rparr>,
                  calls := calls st1 @ [Run GetOrphanedUploads] @ concat (map unpin_calls os) @ [Run GetStats]\<rparr>,
              Some ((tally st1)\<lparr>unpinned := unpinned (tally st1) + length os\<rparr>)))"
proof -
  have all: "list_all (\<lambda>u. \<not> throws (MarkUnpinned (cid u))) os" for os
    using nf by (simp add: list_all_iff)
  show ?thesis
  proof (cases "dryRun opts")
    case True
    then show ?thesis
      using nf by (simp add: runCleanup_def Let_def unpinOrphaned_dry)
  next
    case False
    then show ?thesis
      using nf by (simp add: runCleanup_def Let_def unpinOrphaned_all_succeed [OF all])
  qed
qed

lemma eval_stale_row_in: "is_stale 1200000 15 (row_in Pending)"
  by (simp add: is_stale_def row_in_def)

lemma eval_db_in: "distinct (map cid (rows (db_in s)))" "row_in s \<in> set (rows (db_in s))" "cid (row_in s) = ''bafy1''"
  by (simp_all add: db_in_def row_in_def)

lemma eval_status_of_db_in: "status_of ''bafy1'' (db_in s) = Some s"
  by (simp add: status_of_def db_in_def row_in_def)

lemma eval_sweep_unconfirmed:
  "runCleanup (Some (ledger_says 0)) store bucket default_options 1200000 no_faults (db_in Pending) =
     (\<lparr>db = db_in Unpinned, s3 = store,
       tally = \<lparr>confirmed = 0, orphaned = 1, unpinned = 1, errors = 0\<rparr>,
       calls = [Run GetPendingUploads, GetReadStatus ''0xT'' ''0xA'', Run (MarkOrphaned ''bafy1''),
                Run GetOrphanedUploads, UnpinFromFilebase ''bafy1'', Run (MarkUnpinned ''bafy1''),
                Run GetStats]\<rparr>,
      Some \<lparr>confirmed = 0, orphaned = 1, unpinned = 1, errors = 0\<rparr>)"
  by (simp add: runCleanup_def Let_def no_faults_def default_options_def getStaleUploads_def
      getPendingUploads_def db_in_def row_in_def checkUpload_def checkOnChain_def ledger_says_def
      checkOnChain_calls_def markOrphaned_def set_status_def getOrphanedUploads_def
      unpinUpload_def unpinFromFilebase_def markUnpinned_def)

text \<open>
  C5 as stated says no tracked write becomes unpinned in a sweep unless it was orphaned when
  the sweep started. The sweep reads the orphaned rows after its first loop: a write that is
  pending and twenty minutes old when the sweep starts, with nothing confirmed on the
  ledger, is marked orphaned by the first loop and unpinned by the second.
\<close>

theorem runCleanup_unpins_fresh_orphan_counterexample:
  "status_of ''bafy1'' (db_in Pending) = Some Pending \<and>
   status_of ''bafy1''
     (db (fst (runCleanup (Some (ledger_says 0)) no_objects ''bucket'' default_options 1200000 no_faults
                 (db_in Pending)))) = Some Unpinned"
  by (simp add: eval_sweep_unconfirmed eval_status_of_db_in)

text \<open>
  C5, amended. In every sweep, whichever statements throw: once the first call of the unpin
  loop is made, no check (ledger query, \<^verbatim>\<open>markConfirmed\<close>, \<^verbatim>\<open>markOrphaned\<close>) follows, and the
  checks made are those of the whole stale batch, in its order. A row that
  is unpinned after the sweep was unpinned or orphaned before it, or was pending and stale
  and found unconfirmed by this sweep's own check. A stale row whose check succeeds ends
  confirmed (pending when the SELECT or its UPDATE threw) and is never unpinned.
\<close>

theorem runCleanup_checks_before_unpins:
  assumes "distinct (map cid (rows d))" and "r \<in> set (rows d)"
  shows "(let st = fst (runCleanup mc store bucket opts now throws d)
          in list_all (\<lambda>x. \<not> is_check x) (dropWhile (\<lambda>x. \<not> is_unpin x) (calls st)) \<and>
             filter is_check (calls st) =
               (if throws GetPendingUploads then []
                else concat (map (check_calls mc) (getStaleUploads now (maxAgeMinutes opts) d))) \<and>
             (status_of (cid r) (db st) = Some Unpinned \<longrightarrow>
                status r = Unpinned \<or> status r = Orphaned \<or>
                (is_stale now (maxAgeMinutes opts) r \<and> \<not> on_chain mc r \<and> \<not> dryRun opts)) \<and>
             (is_stale now (maxAgeMinutes opts) r \<and> on_chain mc r \<longrightarrow>
                status_of (cid r) (db st) =
                  Some (if throws GetPendingUploads \<or> throws (MarkConfirmed (cid r))
                        then Pending else Confirmed)))"
proof -
  let ?st = "fst (runCleanup mc store bucket opts now throws d)"
  let ?c = "checked mc now (maxAgeMinutes opts) throws r"
  let ?A = "if throws GetPendingUploads then [Run GetPendingUploads]
            else Run GetPendingUploads #
                 concat (map (check_calls mc) (getStaleUploads now (maxAgeMinutes opts) d)) @
                 [Run GetOrphanedUploads]"
  from calls_runCleanup_split [of mc store bucket opts now throws d]
  obtain B where AB: "calls ?st = ?A @ B" and B: "filter is_check B = []"
    by blast
  have A: "filter is_unpin ?A = []"
    by (simp add: filter_concat_none check_calls_kinds)
  from AB A B have order: "list_all (\<lambda>x. \<not> is_check x) (dropWhile (\<lambda>x. \<not> is_unpin x) (calls ?st))"
    by (rule checks_precede_unpins)
  have checks: "filter is_check (calls ?st) =
               (if throws GetPendingUploads then []
                else concat (map (check_calls mc) (getStaleUploads now (maxAgeMinutes opts) d)))"
    unfolding AB using B by (simp add: filter_concat_all check_calls_kinds)
  from status_after_sweep [OF assms, of mc store bucket opts now throws]
  obtain s' where s: "status_of (cid r) (db ?st) = Some s'"
    and gp: "throws GetPendingUploads \<Longrightarrow> s' = status r"
    and ok: "\<not> throws GetPendingUploads \<Longrightarrow>
             s' = status ?c \<or> (status ?c = Orphaned \<and> s' = Unpinned \<and> \<not> dryRun opts \<and> \<not> throws GetOrphanedUploads)"
    by (auto split: if_splits)
  note sc = status_checked [of mc now "maxAgeMinutes opts" throws r]
  have unp: "status r = Unpinned \<or> status r = Orphaned \<or>
             (is_stale now (maxAgeMinutes opts) r \<and> \<not> on_chain mc r \<and> \<not> dryRun opts)"
    if "s' = Unpinned"
  proof (cases "throws GetPendingUploads")
    case True
    with gp that show ?thesis by simp
  next
    case False
    from ok [OF False] False that sc show ?thesis
      by (auto split: if_splits)
  qed
  have conf: "s' = (if throws GetPendingUploads \<or> throws (MarkConfirmed (cid r)) then Pending else Confirmed)"
    if "is_stale now (maxAgeMinutes opts) r" and "on_chain mc r"
  proof (cases "throws GetPendingUploads")
    case True
    with gp that show ?thesis by (simp add: is_stale_def)
  next
    case False
    from ok [OF False] False that sc show ?thesis
      by (auto split: if_splits)
  qed
  show ?thesis
    unfolding Let_def using order checks s unp conf by simp
qed

lemma eval_on_chain_says: "on_chain (Some (ledger_says k)) r = (message_index r < int k)"
  by (simp add: on_chain_def checkOnChain_def ledger_says_def)

theorem runCleanup_checks_before_unpins_witness:
  "distinct (map cid (rows (db_in Pending))) \<and> row_in Pending \<in> set (rows (db_in Pending)) \<and>
   is_stale 1200000 (maxAgeMinutes default_options) (row_in Pending) \<and>
   on_chain (Some (ledger_says 1)) (row_in Pending) \<and>
   status_of (cid (row_in Pending))
     (db (fst (runCleanup (Some (ledger_says 1)) no_objects ''bucket'' default_options 1200000 no_faults
                 (db_in Pending)))) = Some Confirmed"
proof -
  have a: "is_stale 1200000 (maxAgeMinutes default_options) (row_in Pending)"
    by (simp add: default_options_def eval_stale_row_in)
  have b: "on_chain (Some (ledger_says 1)) (row_in Pending)"
    by (simp add: eval_on_chain_says row_in_def)
  from runCleanup_checks_before_unpins [OF eval_db_in(1,2) [of Pending], where mc = "Some (ledger_says 1)"
      and store = no_objects and bucket = "''bucket''" and opts = default_options and now = 1200000
      and throws = no_faults] a b eval_db_in [of Pending]
  show ?thesis
    by (simp add: Let_def no_faults_def)
qed

section \<open>The cleanup job: failures, unpinning, missing contract, status writes\<close>

lemma tally_runCleanup:
  assumes "\<not> throws GetPendingUploads"
  shows "confirmed (tally (fst (runCleanup mc store bucket opts now throws d))) =
           length (filter (\<lambda>u. on_chain mc u \<and> \<not> throws (MarkConfirmed (cid u)))
                     (getStaleUploads now (maxAgeMinutes opts) d)) \<and>
         orphaned (tally (fst (runCleanup mc store bucket opts now throws d))) =
           length (filter (\<lambda>u. \<not> on_chain mc u \<and> \<not> throws (MarkOrphaned (cid u)))
                     (getStaleUploads now (maxAgeMinutes opts) d)) \<and>
         errors (tally (fst (runCleanup mc store bucket opts now throws d))) =
           length (filter (\<lambda>u. throws (if on_chain mc u then MarkConfirmed (cid u) else MarkOrphaned (cid u)))
                     (getStaleUploads now (maxAgeMinutes opts) d))"
proof -
  let ?st0 = "\<lparr>db = d, s3 = store,
                tally = \<lparr>confirmed = 0, orphaned = 0, unpinned = 0, errors = 0\<rparr>,
                calls = [Run GetPendingUploads]\<rparr>"
  let ?st1 = "checkStale mc now throws (getStaleUploads now (maxAgeMinutes opts) d) ?st0"
  let ?st1' = "?st1\<lparr>calls := calls ?st1 @ [Run GetOrphanedUploads]\<rparr>"
  let ?r = "unpinOrphaned throws (dryRun opts) bucket (getOrphanedUploads (db ?st1)) ?st1'"
  note t1 = tally_checkStale [of mc now throws "getStaleUploads now (maxAgeMinutes opts) d" ?st0]
  note t2 = tally_unpinOrphaned [of throws "dryRun opts" bucket "getOrphanedUploads (db ?st1)" ?st1']
  have "tally (fst (runCleanup mc store bucket opts now throws d)) =
          (if throws GetOrphanedUploads then tally ?st1 else tally (reached ?r))"
    using assms by (simp add: runCleanup_def Let_def reached_def split: sum.splits)
  then show ?thesis
    using t1 t2 by simp
qed

lemma query_rejects_not_on_chain: "query_rejects mc r \<Longrightarrow> \<not> on_chain mc r"
  by (auto simp: query_rejects_def on_chain_def checkOnChain_def split: option.splits)

subsection \<open>The second loop when a statement throws\<close>

lemma take_Suc_takeWhile_all:
  assumes "list_all P os"
  shows "takeWhile P os = os \<and> take (Suc (length (takeWhile P os))) os = os"
proof -
  from assms have "takeWhile P os = os"
    by (simp add: list_all_iff)
  then show ?thesis
    by (simp only: take_all_iff) simp
qed

lemma unpinOrphaned_wet:
  "unpinOrphaned throws False bucket os st =
     (let unpinned_rows = takeWhile (\<lambda>u. \<not> throws (MarkUnpinned (cid u))) os;
          st' = st\<lparr>db := (db st)\<lparr>rows := map (fold (\<lambda>u. set_status Unpinned (cid u)) unpinned_rows)
                                           (rows (db st))\<rparr>,
                  tally := (tally st)\<lparr>unpinned := unpinned (tally st) + length unpinned_rows\<rparr>,
                  calls := calls st @ concat (map unpin_calls (take (Suc (length unpinned_rows)) os))\<rparr>
      in if list_all (\<lambda>u. \<not> throws (MarkUnpinned (cid u))) os then Inr st' else Inl st')"
proof (induction os arbitrary: st)
  case Nil
  then show ?case by simp
next
  case (Cons u os)
  show ?case
    by (simp add: unpinOrphaned_Cons Cons.IH Let_def markUnpinned_def del: unpinOrphaned.simps(2))
qed

lemma runCleanup_sweep:
  assumes st1: "st1 = checkStale mc now throws (getStaleUploads now (maxAgeMinutes opts) d)
                 \<lparr>db = d, s3 = store,
                  tally = \<lparr>confirmed = 0, orphaned = 0, unpinned = 0, errors = 0\<rparr>,
                  calls = [Run GetPendingUploads]\<rparr>"
    and os: "os = getOrphanedUploads (db st1)"
    and ps: "ps = takeWhile (\<lambda>u. \<not> throws (MarkUnpinned (cid u))) os"
  shows "runCleanup mc store bucket opts now throws d =
    (if throws GetPendingUploads
     then (\<lparr>db = d, s3 = store, tally = \<lparr>confirmed = 0, orphaned = 0, unpinned = 0, errors = 0\<rparr>,
            calls = [Run GetPendingUploads]\<rparr>, None)
     else if throws GetOrphanedUploads
     then (st1\<lparr>calls := calls st1 @ [Run GetOrphanedUploads]\<rparr>, None)
     else if dryRun opts
     then (st1\<lparr>calls := calls st1 @ [Run GetOrphanedUploads, Run GetStats]\<rparr>,
           if throws GetStats then None else Some (tally st1))
     else if list_all (\<lambda>u. \<not> throws (MarkUnpinned (cid u))) os
     then (st1\<lparr>db := (db st1)\<lparr>rows := map (fold (\<lambda>u. set_status Unpinned (cid u)) ps) (rows (db st1))\<rparr>,
               tally := (tally st1)\<lparr>unpinned := unpinned (tally st1) + length ps\<rparr>,
               calls := calls st1 @ [Run GetOrphanedUploads] @
                        concat (map unpin_calls (take (Suc (length ps)) os)) @ [Run GetStats]\<rparr>,
           if throws GetStats then None
           else Some ((tally st1)\<lparr>unpinned := unpinned (tally st1) + length ps\<rparr>))
     else (st1\<lparr>db := (db st1)\<lparr>rows := map (fold (\<lambda>u. set_status Unpinned (cid u)) ps) (rows (db st1))\<rparr>,
               tally := (tally st1)\<lparr>unpinned := unpinned (tally st1) + length ps\<rparr>,
               calls := calls st1 @ [Run GetOrphanedUploads] @
                        concat (map unpin_calls (take (Suc (length ps)) os))\<rparr>, None))"
proof (cases "dryRun opts")
  case True
  then show ?thesis
    unfolding st1 by (simp add: runCleanup_def Let_def unpinOrphaned_dry)
next
  case False
  then show ?thesis
    unfolding st1 os ps by (simp add: runCleanup_def Let_def unpinOrphaned_wet)
qed

lemma member_unpinned_prefix:
  assumes d: "distinct (map cid xs)" and r: "r \<in> set xs"
  shows "cid r \<in> cid ` set (takeWhile P (filter (\<lambda>r. status r = Orphaned) xs)) \<longleftrightarrow>
         r \<in> set (takeWhile P (filter (\<lambda>r. status r = Orphaned) xs))"
proof
  assume "cid r \<in> cid ` set (takeWhile P (filter (\<lambda>r. status r = Orphaned) xs))"
  then obtain p where p: "p \<in> set (takeWhile P (filter (\<lambda>r. status r = Orphaned) xs))" "cid p = cid r"
    by auto
  from p(1) have "p \<in> set (filter (\<lambda>r. status r = Orphaned) xs)"
    by (blast dest: set_takeWhileD)
  then have "p \<in> set xs"
    by simp
  from cid_inj_rows [OF d this r p(2)] p(1) show "r \<in> set (takeWhile P (filter (\<lambda>r. status r = Orphaned) xs))"
    by simp
next
  assume "r \<in> set (takeWhile P (filter (\<lambda>r. status r = Orphaned) xs))"
  then show "cid r \<in> cid ` set (takeWhile P (filter (\<lambda>r. status r = Orphaned) xs))"
    by blast
qed

lemma unpinned_prefix_rows:
  assumes "distinct (map cid xs)"
  shows "map (fold (\<lambda>u. set_status Unpinned (cid u)) (takeWhile P (filter (\<lambda>r. status r = Orphaned) xs))) xs =
         map (\<lambda>r. if r \<in> set (takeWhile P (filter (\<lambda>r. status r = Orphaned) xs))
                   then r\<lparr>status := Unpinned\<rparr> else r) xs"
proof (rule map_cong [OF refl])
  fix r assume "r \<in> set xs"
  from member_unpinned_prefix [OF assms this, of P]
  show "fold (\<lambda>u. set_status Unpinned (cid u)) (takeWhile P (filter (\<lambda>r. status r = Orphaned) xs)) r =
        (if r \<in> set (takeWhile P (filter (\<lambda>r. status r = Orphaned) xs)) then r\<lparr>status := Unpinned\<rparr> else r)"
    by (simp add: fold_unpin_row)
qed

lemma rows_first_loop:
  assumes "distinct (map cid (rows d))"
  shows "rows (db (checkStale mc now throws (getStaleUploads now maxAge d)
                 \<lparr>db = d, s3 = store,
                  tally = \<lparr>confirmed = 0, orphaned = 0, unpinned = 0, errors = 0\<rparr>,
                  calls = [Run GetPendingUploads]\<rparr>)) =
         map (checked mc now maxAge throws) (rows d)"
proof -
  have "rows (db (checkStale mc now throws (getStaleUploads now maxAge d)
                 \<lparr>db = d, s3 = store,
                  tally = \<lparr>confirmed = 0, orphaned = 0, unpinned = 0, errors = 0\<rparr>,
                  calls = [Run GetPendingUploads]\<rparr>)) =
        map (\<lambda>r. if is_stale now maxAge r then check_row mc now throws r r else r) (rows d)"
    unfolding getStaleUploads_filter
    using rows_after_checks [of "\<lparr>db = d, s3 = store,
                  tally = \<lparr>confirmed = 0, orphaned = 0, unpinned = 0, errors = 0\<rparr>,
                  calls = [Run GetPendingUploads]\<rparr>" mc now throws "is_stale now maxAge"] assms
    by simp
  then show ?thesis
    by (simp add: checked_def [abs_def])
qed

lemma orphaned_after_checks:
  assumes d: "distinct (map cid xs)" and r: "r \<in> set xs" and f: "\<And>x. cid (f x) = cid x"
  shows "cid r \<in> cid ` set (filter (\<lambda>r. status r = Orphaned) (map f xs)) \<longleftrightarrow> status (f r) = Orphaned"
proof
  assume "cid r \<in> cid ` set (filter (\<lambda>r. status r = Orphaned) (map f xs))"
  then obtain p where p: "p \<in> set xs" "status (f p) = Orphaned" "cid (f p) = cid r"
    by auto
  from p(3) have "cid p = cid r"
    by (simp add: f)
  from cid_inj_rows [OF d p(1) r this] p(2) show "status (f r) = Orphaned"
    by simp
next
  assume "status (f r) = Orphaned"
  with r have "f r \<in> set (filter (\<lambda>r. status r = Orphaned) (map f xs))"
    by simp
  then have "cid (f r) \<in> cid ` set (filter (\<lambda>r. status r = Orphaned) (map f xs))"
    by (rule imageI)
  then show "cid r \<in> cid ` set (filter (\<lambda>r. status r = Orphaned) (map f xs))"
    by (simp only: f)
qed

lemma db_dry_run:
  "db (fst (runCleanup mc store bucket (opts\<lparr>dryRun := True\<rparr>) now throws d)) =
     (if throws GetPendingUploads then d
      else db (checkStale mc now throws (getStaleUploads now (maxAgeMinutes opts) d)
                 \<lparr>db = d, s3 = store,
                  tally = \<lparr>confirmed = 0, orphaned = 0, unpinned = 0, errors = 0\<rparr>,
                  calls = [Run GetPendingUploads]\<rparr>))"
  using runCleanup_sweep [OF refl refl refl, of mc store bucket "opts\<lparr>dryRun := True\<rparr>" now throws d]
  by simp

lemma rows_dry_run:
  assumes "distinct (map cid (rows d))"
  shows "rows (db (fst (runCleanup mc store bucket (opts\<lparr>dryRun := True\<rparr>) now throws d))) =
     (if throws GetPendingUploads then rows d
      else map (checked mc now (maxAgeMinutes opts) throws) (rows d))"
  by (simp add: db_dry_run rows_first_loop [OF assms])

lemma rejects_when_interrupted:
  assumes "\<not> throws GetPendingUploads" and "\<not> throws GetOrphanedUploads" and "\<not> dryRun opts"
    and "takeWhile (\<lambda>u. \<not> throws (MarkUnpinned (cid u)))
           (getOrphanedUploads (db (fst (runCleanup mc store bucket (opts\<lparr>dryRun := True\<rparr>) now throws d)))) \<noteq>
         getOrphanedUploads (db (fst (runCleanup mc store bucket (opts\<lparr>dryRun := True\<rparr>) now throws d)))"
  shows "snd (runCleanup mc store bucket opts now throws d) = None"
proof -
  define st1 where "st1 = checkStale mc now throws (getStaleUploads now (maxAgeMinutes opts) d)
                 \<lparr>db = d, s3 = store,
                  tally = \<lparr>confirmed = 0, orphaned = 0, unpinned = 0, errors = 0\<rparr>,
                  calls = [Run GetPendingUploads]\<rparr>"
  define os where "os = getOrphanedUploads (db st1)"
  have "db (fst (runCleanup mc store bucket (opts\<lparr>dryRun := True\<rparr>) now throws d)) = db st1"
    using assms(1) by (simp add: db_dry_run st1_def)
  with assms(4) have "takeWhile (\<lambda>u. \<not> throws (MarkUnpinned (cid u))) os \<noteq> os"
    unfolding os_def by simp
  then have "\<not> list_all (\<lambda>u. \<not> throws (MarkUnpinned (cid u))) os"
    using take_Suc_takeWhile_all [of "\<lambda>u. \<not> throws (MarkUnpinned (cid u))" os] by blast
  then show ?thesis
    using runCleanup_sweep [OF st1_def os_def refl, of bucket] assms(1-3)
    by simp
qed

lemma status_of_runCleanup:
  assumes d: "distinct (map cid (rows d))" and r: "r \<in> set (rows d)"
    and gp: "\<not> throws GetPendingUploads"
    and dry: "dry = fst (runCleanup mc store bucket (opts\<lparr>dryRun := True\<rparr>) now throws d)"
    and os: "os = getOrphanedUploads (db dry)"
    and ps: "ps = takeWhile (\<lambda>u. \<not> throws (MarkUnpinned (cid u))) os"
    and v: "v = status (checked mc now (maxAgeMinutes opts) throws r)"
  shows "status_of (cid r) (db dry) = Some v \<and>
         (cid r \<in> cid ` set os \<longleftrightarrow> v = Orphaned) \<and>
         status_of (cid r) (db (fst (runCleanup mc store bucket opts now throws d))) =
           Some (if \<not> dryRun opts \<and> \<not> throws GetOrphanedUploads \<and> cid r \<in> cid ` set ps
                 then Unpinned else v)"
proof -
  let ?run = "runCleanup mc store bucket opts now throws d"
  let ?c = "checked mc now (maxAgeMinutes opts) throws"
  have rd: "rows (db dry) = map ?c (rows d)"
    unfolding dry using rows_dry_run [OF d, of mc store bucket opts now throws] gp by simp
  have g1: "status_of (cid r) (db dry) = Some v"
    using status_of_map [OF d r _ rd] v by simp
  have os': "os = filter (\<lambda>r. status r = Orphaned) (map ?c (rows d))"
    by (simp add: os getOrphanedUploads_def rd)
  have g2: "cid r \<in> cid ` set os \<longleftrightarrow> v = Orphaned"
    unfolding os' using orphaned_after_checks [OF d r, of ?c] v by simp
  let ?u = "\<lambda>r. if cid r \<in> cid ` set ps then r\<lparr>status := Unpinned\<rparr> else r"
  have g3: "status_of (cid r) (db (fst ?run)) =
               Some (if \<not> dryRun opts \<and> \<not> throws GetOrphanedUploads \<and> cid r \<in> cid ` set ps
                     then Unpinned else v)"
  proof (cases "throws GetOrphanedUploads \<or> dryRun opts")
    case True
    then have "rows (db (fst ?run)) = map ?c (rows d)"
      using rows_runCleanup_checked [OF d, of mc store bucket opts now throws] gp by simp
    from status_of_map [OF d r _ this] v True show ?thesis
      by auto
  next
    case False
    then have "rows (db (fst ?run)) = map (?u \<circ> ?c) (rows d)"
      using rows_runCleanup_checked [OF d, of mc store bucket opts now throws] gp
      by (simp add: ps os')
    from status_of_map [OF d r _ this]
    have "status_of (cid r) (db (fst ?run)) = Some (status (?u (?c r)))"
      by simp
    with v False show ?thesis
      by simp
  qed
  from g1 g2 g3 show ?thesis
    by blast
qed

subsection \<open>Sweeps of the example tables\<close>

lemma eval_sweep_rejected:
  "runCleanup (Some ledger_rejects) store bucket dry_options 1200000 no_faults (db_in Pending) =
     (\<lparr>db = db_in Orphaned, s3 = store,
       tally = \<lparr>confirmed = 0, orphaned = 1, unpinned = 0, errors = 0\<rparr>,
       calls = [Run GetPendingUploads, GetReadStatus ''0xT'' ''0xA'', Run (MarkOrphaned ''bafy1''),
                Run GetOrphanedUploads, Run GetStats]\<rparr>,
      Some \<lparr>confirmed = 0, orphaned = 1, unpinned = 0, errors = 0\<rparr>)"
  by (simp add: runCleanup_def Let_def no_faults_def dry_options_def getStaleUploads_def
      getPendingUploads_def db_in_def row_in_def checkUpload_def checkOnChain_def ledger_rejects_def
      checkOnChain_calls_def markOrphaned_def set_status_def getOrphanedUploads_def
      unpinUpload_def)

lemma eval_db2_in:
  "distinct (map cid (rows (db2_in s)))" "row_in s \<in> set (rows (db2_in s))"
  "row2_in s \<in> set (rows (db2_in s))" "cid (row2_in s) = ''bafy2''"
  by (simp_all add: db2_in_def row_in_def row2_in_def)

lemma eval_stale_row2_in: "is_stale 1200000 15 (row2_in Pending)"
  by (simp add: is_stale_def row2_in_def)

lemma eval_status_of_db2_in: "status_of ''bafy1'' (db2_in s) = Some s" "status_of ''bafy2'' (db2_in s) = Some s"
  by (simp_all add: status_of_def db2_in_def row_in_def row2_in_def)

lemma eval_dry_orphan:
  "runCleanup None store bucket dry_options 1200000 no_faults (db_in Orphaned) =
     (\<lparr>db = db_in Orphaned, s3 = store,
       tally = \<lparr>confirmed = 0, orphaned = 0, unpinned = 0, errors = 0\<rparr>,
       calls = [Run GetPendingUploads, Run GetOrphanedUploads, Run GetStats]\<rparr>,
      Some \<lparr>confirmed = 0, orphaned = 0, unpinned = 0, errors = 0\<rparr>)"
  by (simp add: runCleanup_def Let_def no_faults_def dry_options_def getStaleUploads_def
      getPendingUploads_def db_in_def row_in_def getOrphanedUploads_def unpinUpload_def)

lemma eval_sweep_interrupted:
  "runCleanup None store bucket default_options 1200000 (only_throws (MarkUnpinned ''bafy1'')) (db2_in Orphaned) =
     (\<lparr>db = db2_in Orphaned, s3 = store,
       tally = \<lparr>confirmed = 0, orphaned = 0, unpinned = 0, errors = 0\<rparr>,
       calls = [Run GetPendingUploads, Run GetOrphanedUploads, UnpinFromFilebase ''bafy1'',
                Run (MarkUnpinned ''bafy1'')]\<rparr>, None)"
  by (simp add: runCleanup_def Let_def only_throws_def default_options_def getStaleUploads_def
      getPendingUploads_def db2_in_def row_in_def row2_in_def getOrphanedUploads_def
      unpinUpload_def unpinFromFilebase_def)

lemma eval_dry_two_orphans:
  "runCleanup None store bucket dry_options 1200000 (only_throws (MarkUnpinned ''bafy1'')) (db2_in Orphaned) =
     (\<lparr>db = db2_in Orphaned, s3 = store,
       tally = \<lparr>confirmed = 0, orphaned = 0, unpinned = 0, errors = 0\<rparr>,
       calls = [Run GetPendingUploads, Run GetOrphanedUploads, Run GetStats]\<rparr>,
      Some \<lparr>confirmed = 0, orphaned = 0, unpinned = 0, errors = 0\<rparr>)"
  by (simp add: runCleanup_def Let_def only_throws_def dry_options_def getStaleUploads_def
      getPendingUploads_def db2_in_def row_in_def row2_in_def getOrphanedUploads_def unpinUpload_def)

lemma eval_sweep_two_pending_interrupted:
  "runCleanup None store bucket default_options 1200000 (only_throws (MarkUnpinned ''bafy1'')) (db2_in Pending) =
     (\<lparr>db = db2_in Orphaned, s3 = store,
       tally = \<lparr>confirmed = 0, orphaned = 2, unpinned = 0, errors = 0\<rparr>,
       calls = [Run GetPendingUploads, Run (MarkOrphaned ''bafy1''), Run (MarkOrphaned ''bafy2''),
                Run GetOrphanedUploads, UnpinFromFilebase ''bafy1'', Run (MarkUnpinned ''bafy1'')]\<rparr>, None)"
  by (simp add: runCleanup_def Let_def only_throws_def default_options_def getStaleUploads_def
      getPendingUploads_def db2_in_def row_in_def row2_in_def getOrphanedUploads_def
      checkUpload_def checkOnChain_def checkOnChain_calls_def markOrphaned_def set_status_def
      unpinUpload_def unpinFromFilebase_def)

lemma eval_dry_two_pending:
  "runCleanup None store bucket dry_options 1200000 (only_throws (MarkUnpinned ''bafy1'')) (db2_in Pending) =
     (\<lparr>db = db2_in Orphaned, s3 = store,
       tally = \<lparr>confirmed = 0, orphaned = 2, unpinned = 0, errors = 0\<rparr>,
       calls = [Run GetPendingUploads, Run (MarkOrphaned ''bafy1''), Run (MarkOrphaned ''bafy2''),
                Run GetOrphanedUploads, Run GetStats]\<rparr>,
      Some \<lparr>confirmed = 0, orphaned = 2, unpinned = 0, errors = 0\<rparr>)"
  by (simp add: runCleanup_def Let_def only_throws_def dry_options_def getStaleUploads_def
      getPendingUploads_def db2_in_def row_in_def row2_in_def getOrphanedUploads_def
      checkUpload_def checkOnChain_def checkOnChain_calls_def markOrphaned_def set_status_def
      unpinUpload_def)

lemma eval_sweep_update_throws:
  "runCleanup None store bucket default_options 1200000 (only_throws (MarkOrphaned ''bafy1'')) (db_in Pending) =
     (\<lparr>db = db_in Pending, s3 = store,
       tally = \<lparr>confirmed = 0, orphaned = 0, unpinned = 0, errors = 1\<rparr>,
       calls = [Run GetPendingUploads, Run (MarkOrphaned ''bafy1''), Run GetOrphanedUploads, Run GetStats]\<rparr>,
      Some \<lparr>confirmed = 0, orphaned = 0, unpinned = 0, errors = 1\<rparr>)"
  by (simp add: runCleanup_def Let_def only_throws_def default_options_def getStaleUploads_def
      getPendingUploads_def db_in_def row_in_def getOrphanedUploads_def
      checkUpload_def checkOnChain_def checkOnChain_calls_def unpinUpload_def)

lemma eval_orphans_db2: "getOrphanedUploads (db2_in Orphaned) = [row_in Orphaned, row2_in Orphaned]"
  by (simp add: getOrphanedUploads_def db2_in_def row_in_def row2_in_def)

lemma eval_rows_db_in: "rows (db_in s) = [row_in s]" "rows (db2_in s) = [row_in s, row2_in s]"
  by (simp_all add: db_in_def db2_in_def)

lemma eval_options:
  "default_options\<lparr>dryRun := False\<rparr> = default_options" "default_options\<lparr>dryRun := True\<rparr> = dry_options"
  "dry_options\<lparr>dryRun := True\<rparr> = dry_options"
  "maxAgeMinutes default_options = 15" "maxAgeMinutes dry_options = 15"
  "dryRun default_options = False" "dryRun dry_options = True"
  by (simp_all add: default_options_def dry_options_def)

text \<open>
  C6 as stated says a failed ledger query leaves the entry in its prior status and is
  counted as a failure. \<^verbatim>\<open>checkOnChain\<close> catches the rejection and answers false ("Thread
  doesn't exist or other error - not confirmed"): the pending entry is marked orphaned and
  counted under \<^verbatim>\<open>orphaned\<close>, with \<^verbatim>\<open>errors\<close> at 0.
\<close>

theorem runCleanup_rejected_query_counterexample:
  "query_rejects (Some ledger_rejects) (row_in Pending) \<and>
   status_of ''bafy1'' (db_in Pending) = Some Pending \<and>
   status_of ''bafy1''
     (db (fst (runCleanup (Some ledger_rejects) no_objects ''bucket'' dry_options 1200000 no_faults
                 (db_in Pending)))) = Some Orphaned \<and>
   snd (runCleanup (Some ledger_rejects) no_objects ''bucket'' dry_options 1200000 no_faults
          (db_in Pending)) = Some \<lparr>confirmed = 0, orphaned = 1, unpinned = 0, errors = 0\<rparr>"
  by (simp add: eval_sweep_rejected eval_status_of_db_in query_rejects_def ledger_rejects_def)

text \<open>
  C6, amended. In a sweep whose SELECT of the stale rows went through, the first loop
  treats every stale entry on its own: after it (which is the table a dry run leaves) the
  entry is confirmed when the ledger confirms it and orphaned otherwise, and it is still
  pending exactly when its own UPDATE threw, whatever happened to the other entries. A
  ledger query that rejects is an answer "not confirmed": the entry is marked orphaned.
  Only a throwing UPDATE is counted under \<^verbatim>\<open>errors\<close>; every other stale entry is counted under
  \<^verbatim>\<open>confirmed\<close> or \<^verbatim>\<open>orphaned\<close>. The second loop is not isolated. \<^verbatim>\<open>unpinFromFilebase\<close> reports
  success for every entry and \<^verbatim>\<open>markUnpinned\<close> runs outside any try block: an entry that the
  first loop left orphaned ends unpinned exactly when the sweep is not a dry run, the
  SELECT of the orphaned rows went through, and \<^verbatim>\<open>markUnpinned\<close> threw neither for it nor for
  an orphaned row before it. When \<^verbatim>\<open>markUnpinned\<close> throws, the sweep ends there and its
  promise rejects.
\<close>

theorem runCleanup_isolates_entries:
  assumes "distinct (map cid (rows d))" and "r \<in> set (rows d)"
    and "is_stale now (maxAgeMinutes opts) r" and "\<not> throws GetPendingUploads"
  shows "(let run = runCleanup mc store bucket opts now throws d;
              st = fst run;
              dry = fst (runCleanup mc store bucket (opts\<lparr>dryRun := True\<rparr>) now throws d);
              stale = getStaleUploads now (maxAgeMinutes opts) d;
              os = getOrphanedUploads (db dry);
              marked = takeWhile (\<lambda>u. \<not> throws (MarkUnpinned (cid u))) os;
              verdict = (if on_chain mc r
                         then (if throws (MarkConfirmed (cid r)) then Pending else Confirmed)
                         else (if throws (MarkOrphaned (cid r)) then Pending else Orphaned))
          in status_of (cid r) (db dry) = Some verdict \<and>
             (cid r \<in> cid ` set os \<longleftrightarrow> verdict = Orphaned) \<and>
             status_of (cid r) (db st) =
               Some (if \<not> dryRun opts \<and> \<not> throws GetOrphanedUploads \<and> cid r \<in> cid ` set marked
                     then Unpinned else verdict) \<and>
             (\<not> dryRun opts \<and> \<not> throws GetOrphanedUploads \<and> marked \<noteq> os \<longrightarrow> snd run = None) \<and>
             (query_rejects mc r \<longrightarrow>
                verdict = (if throws (MarkOrphaned (cid r)) then Pending else Orphaned)) \<and>
             errors (tally st) =
               length (filter (\<lambda>u. throws (if on_chain mc u then MarkConfirmed (cid u)
                                             else MarkOrphaned (cid u))) stale) \<and>
             orphaned (tally st) =
               length (filter (\<lambda>u. \<not> on_chain mc u \<and> \<not> throws (MarkOrphaned (cid u))) stale) \<and>
             confirmed (tally st) =
               length (filter (\<lambda>u. on_chain mc u \<and> \<not> throws (MarkConfirmed (cid u))) stale) \<and>
             fst (unpinFromFilebase store bucket (cid r)) = True)"
proof -
  let ?run = "runCleanup mc store bucket opts now throws d"
  let ?dry = "fst (runCleanup mc store bucket (opts\<lparr>dryRun := True\<rparr>) now throws d)"
  let ?ok = "\<lambda>u. \<not> throws (MarkUnpinned (cid u))"
  define v where "v = (if on_chain mc r
            then (if throws (MarkConfirmed (cid r)) then Pending else Confirmed)
            else (if throws (MarkOrphaned (cid r)) then Pending else Orphaned))"
  define os where "os = getOrphanedUploads (db ?dry)"
  define ps where "ps = takeWhile ?ok os"
  have sc: "v = status (checked mc now (maxAgeMinutes opts) throws r)"
    using assms(3) by (simp add: status_checked v_def)
  note g1 = status_of_runCleanup [OF assms(1,2,4) refl os_def ps_def sc]
  have g4: "snd ?run = None" if "\<not> dryRun opts \<and> \<not> throws GetOrphanedUploads \<and> ps \<noteq> os"
    using rejects_when_interrupted [where throws = throws and opts = opts and mc = mc and store = store
        and bucket = bucket and now = now and d = d] that assms(4)
    unfolding ps_def os_def by blast
  have g5: "query_rejects mc r \<longrightarrow> v = (if throws (MarkOrphaned (cid r)) then Pending else Orphaned)"
    using query_rejects_not_on_chain [of mc r] by (simp add: v_def)
  have g6: "fst (unpinFromFilebase store bucket (cid r)) = True"
    by (simp add: unpinFromFilebase_def)
  note t = tally_runCleanup [where throws = throws and mc = mc and store = store and bucket = bucket
      and opts = opts and now = now and d = d, OF assms(4)]
  from g1 g4 g5 g6 t show ?thesis
    unfolding Let_def v_def ps_def os_def by blast
qed

theorem runCleanup_isolates_entries_witness:
  "distinct (map cid (rows (db_in Pending))) \<and> row_in Pending \<in> set (rows (db_in Pending)) \<and>
   is_stale 1200000 (maxAgeMinutes dry_options) (row_in Pending) \<and>
   no_faults GetPendingUploads = False \<and>
   query_rejects (Some ledger_rejects) (row_in Pending) \<and>
   status_of (cid (row_in Pending))
     (db (fst (runCleanup (Some ledger_rejects) no_objects ''bucket'' dry_options 1200000 no_faults
                 (db_in Pending)))) = Some Orphaned \<and>
   errors (tally (fst (runCleanup (Some ledger_rejects) no_objects ''bucket'' dry_options 1200000 no_faults
                 (db_in Pending)))) = 0 \<and>
   distinct (map cid (rows (db2_in Pending))) \<and> row2_in Pending \<in> set (rows (db2_in Pending)) \<and>
   is_stale 1200000 (maxAgeMinutes default_options) (row2_in Pending) \<and>
   only_throws (MarkUnpinned ''bafy1'') GetPendingUploads = False \<and>
   only_throws (MarkUnpinned ''bafy1'') GetOrphanedUploads = False \<and>
   dryRun default_options = False \<and>
   takeWhile (\<lambda>u. \<not> only_throws (MarkUnpinned ''bafy1'') (MarkUnpinned (cid u)))
     (getOrphanedUploads (db (fst (runCleanup None no_objects ''bucket'' dry_options 1200000
        (only_throws (MarkUnpinned ''bafy1'')) (db2_in Pending))))) \<noteq>
   getOrphanedUploads (db (fst (runCleanup None no_objects ''bucket'' dry_options 1200000
        (only_throws (MarkUnpinned ''bafy1'')) (db2_in Pending)))) \<and>
   snd (runCleanup None no_objects ''bucket'' default_options 1200000
          (only_throws (MarkUnpinned ''bafy1'')) (db2_in Pending)) = None \<and>
   status_of (cid (row2_in Pending))
     (db (fst (runCleanup None no_objects ''bucket'' default_options 1200000
        (only_throws (MarkUnpinned ''bafy1'')) (db2_in Pending)))) = Some Orphaned"
proof -
  have a: "is_stale 1200000 (maxAgeMinutes dry_options) (row_in Pending)"
    "is_stale 1200000 (maxAgeMinutes default_options) (row2_in Pending)"
    by (simp_all add: eval_options eval_stale_row_in eval_stale_row2_in)
  have b: "\<not> no_faults GetPendingUploads" "\<not> only_throws (MarkUnpinned ''bafy1'') GetPendingUploads"
    "\<not> only_throws (MarkUnpinned ''bafy1'') GetOrphanedUploads"
    by (simp_all add: no_faults_def only_throws_def)
  have c: "query_rejects (Some ledger_rejects) (row_in Pending)"
    by (simp add: query_rejects_def ledger_rejects_def)
  have e: "takeWhile (\<lambda>u. \<not> only_throws (MarkUnpinned ''bafy1'') (MarkUnpinned (cid u)))
     (getOrphanedUploads (db (fst (runCleanup None no_objects ''bucket'' dry_options 1200000
        (only_throws (MarkUnpinned ''bafy1'')) (db2_in Pending))))) \<noteq>
   getOrphanedUploads (db (fst (runCleanup None no_objects ''bucket'' dry_options 1200000
        (only_throws (MarkUnpinned ''bafy1'')) (db2_in Pending))))"
    by (simp add: eval_dry_two_pending eval_orphans_db2 only_throws_def row_in_def)
  from runCleanup_isolates_entries [where throws = no_faults and mc = "Some ledger_rejects"
      and store = no_objects and bucket = "''bucket''", OF eval_db_in(1,2) [of Pending] a(1) b(1)]
    runCleanup_isolates_entries [where throws = "only_throws (MarkUnpinned ''bafy1'')" and mc = None
      and store = no_objects and bucket = "''bucket''", OF eval_db2_in(1,3) [of Pending] a(2) b(2)]
    a b c e eval_db_in [of Pending] eval_db2_in [of Pending]
  show ?thesis
    by (simp add: Let_def eval_options eval_sweep_rejected eval_sweep_two_pending_interrupted
        eval_status_of_db_in eval_status_of_db2_in)
qed

lemma unpinned_rows:
  assumes "distinct (map cid xs)"
  shows "map (fold (\<lambda>u. set_status Unpinned (cid u)) (filter (\<lambda>r. status r = Orphaned) xs)) xs =
         map (\<lambda>r. if status r = Orphaned then r\<lparr>status := Unpinned\<rparr> else r) xs"
proof (rule map_cong [OF refl])
  fix r assume r: "r \<in> set xs"
  have "cid r \<in> cid ` set (filter (\<lambda>r. status r = Orphaned) xs) \<longleftrightarrow> status r = Orphaned"
  proof
    assume "cid r \<in> cid ` set (filter (\<lambda>r. status r = Orphaned) xs)"
    then obtain p where p: "p \<in> set xs" "status p = Orphaned" "cid p = cid r" by auto
    from cid_inj_rows [OF assms p(1) r p(3)] p(2) show "status r = Orphaned" by simp
  next
    assume "status r = Orphaned"
    with r show "cid r \<in> cid ` set (filter (\<lambda>r. status r = Orphaned) xs)" by simp
  qed
  then show "fold (\<lambda>u. set_status Unpinned (cid u)) (filter (\<lambda>r. status r = Orphaned) xs) r =
             (if status r = Orphaned then r\<lparr>status := Unpinned\<rparr> else r)"
    by (simp add: fold_unpin_row)
qed

lemma eval_sweep_orphan:
  "runCleanup None store bucket default_options 1200000 no_faults (db_in Orphaned) =
     (\<lparr>db = db_in Unpinned, s3 = store,
       tally = \<lparr>confirmed = 0, orphaned = 0, unpinned = 1, errors = 0\<rparr>,
       calls = [Run GetPendingUploads, Run GetOrphanedUploads, UnpinFromFilebase ''bafy1'',
                Run (MarkUnpinned ''bafy1''), Run GetStats]\<rparr>,
      Some \<lparr>confirmed = 0, orphaned = 0, unpinned = 1, errors = 0\<rparr>)"
  by (simp add: runCleanup_def Let_def no_faults_def default_options_def getStaleUploads_def
      getPendingUploads_def db_in_def row_in_def getOrphanedUploads_def
      unpinUpload_def unpinFromFilebase_def markUnpinned_def set_status_def)

text \<open>
  C7 as stated says the sweeper issues a delete/unpin against the object store for every
  orphaned entry. \<^verbatim>\<open>unpinFromFilebase\<close> makes no request ("For now, we'll just mark it as
  unpinned in our database"): after a sweep that is not a dry run the orphaned entry is
  marked unpinned, and the object store still holds the thread's object.
\<close>

theorem runCleanup_keeps_objects_counterexample:
  "objects3 (threadKey ''0xT'') = Some three_messages \<and>
   s3 (fst (runCleanup None objects3 ''bucket'' default_options 1200000 no_faults (db_in Orphaned)))
     (threadKey ''0xT'') = Some three_messages \<and>
   status_of ''bafy1''
     (db (fst (runCleanup None objects3 ''bucket'' default_options 1200000 no_faults (db_in Orphaned)))) =
     Some Unpinned"
  by (simp add: eval_sweep_orphan eval_status_of_db_in objects3_def)

text \<open>
  C7, amended. A sweep that is not a dry run goes through the rows that are orphaned after
  the first loop, in the order the SELECT returns them, and for each calls
  \<^verbatim>\<open>unpinFromFilebase\<close> and then \<^verbatim>\<open>markUnpinned\<close>: \<^verbatim>\<open>unpinFromFilebase\<close> always reports success and
  sends nothing to the object store, which the sweep leaves as it was. The loop ends at the
  first \<^verbatim>\<open>markUnpinned\<close> that throws, and the promise of the sweep rejects: the rows before
  that one end unpinned, that row and the rows after it stay orphaned, and the rows after it
  get neither call. No other row changes, and the sweep counts the rows it marked. When no
  \<^verbatim>\<open>markUnpinned\<close> throws, every orphaned row gets both calls and ends unpinned. When one of
  the two SELECTs throws, the second loop does not run. A dry run makes the same checks and
  none of these calls.
\<close>

theorem runCleanup_marks_orphans_unpinned:
  assumes "distinct (map cid (rows d))"
  shows "(let wet = runCleanup mc store bucket (opts\<lparr>dryRun := False\<rparr>) now throws d;
              dry = runCleanup mc store bucket (opts\<lparr>dryRun := True\<rparr>) now throws d;
              os = (if throws GetPendingUploads \<or> throws GetOrphanedUploads then []
                    else getOrphanedUploads (db (fst dry)));
              marked = takeWhile (\<lambda>u. \<not> throws (MarkUnpinned (cid u))) os;
              tried = take (Suc (length marked)) os
          in s3 (fst wet) = store \<and> s3 (fst dry) = store \<and>
             fst (unpinFromFilebase store bucket c) = True \<and>
             snd (unpinFromFilebase store bucket c) = store \<and>
             filter is_unpin (calls (fst wet)) = concat (map unpin_calls tried) \<and>
             rows (db (fst wet)) =
               map (\<lambda>r. if r \<in> set marked then r\<lparr>status := Unpinned\<rparr> else r) (rows (db (fst dry))) \<and>
             unpinned (tally (fst wet)) = length marked \<and>
             (marked \<noteq> os \<longrightarrow> snd wet = None) \<and>
             (list_all (\<lambda>u. \<not> throws (MarkUnpinned (cid u))) os \<longrightarrow>
                marked = os \<and> tried = os \<and>
                (throws GetPendingUploads \<or> throws GetOrphanedUploads \<or>
                 rows (db (fst wet)) =
                   map (\<lambda>r. if status r = Orphaned then r\<lparr>status := Unpinned\<rparr> else r)
                     (rows (db (fst dry))))) \<and>
             filter is_unpin (calls (fst dry)) = [] \<and>
             unpinned (tally (fst dry)) = 0 \<and>
             rows (db (fst dry)) =
               (if throws GetPendingUploads then rows d
                else map (checked mc now (maxAgeMinutes opts) throws) (rows d)) \<and>
             filter is_check (calls (fst dry)) = filter is_check (calls (fst wet)))"
proof -
  define st0 :: "'a sweep" where "st0 = \<lparr>db = d, s3 = store,
                  tally = \<lparr>confirmed = 0, orphaned = 0, unpinned = 0, errors = 0\<rparr>,
                  calls = [Run GetPendingUploads]\<rparr>"
  define st1 where "st1 = checkStale mc now throws (getStaleUploads now (maxAgeMinutes opts) d)
                 \<lparr>db = d, s3 = store,
                  tally = \<lparr>confirmed = 0, orphaned = 0, unpinned = 0, errors = 0\<rparr>,
                  calls = [Run GetPendingUploads]\<rparr>"
  define os1 where "os1 = getOrphanedUploads (db st1)"
  define ps where "ps = takeWhile (\<lambda>u. \<not> throws (MarkUnpinned (cid u))) os1"
  define ran where "ran = (\<not> throws GetPendingUploads \<and> \<not> throws GetOrphanedUploads)"
  let ?ok = "\<lambda>u. \<not> throws (MarkUnpinned (cid u))"
  let ?wet = "runCleanup mc store bucket (opts\<lparr>dryRun := False\<rparr>) now throws d"
  let ?dry = "runCleanup mc store bucket (opts\<lparr>dryRun := True\<rparr>) now throws d"
  let ?os = "if throws GetPendingUploads \<or> throws GetOrphanedUploads then []
             else getOrphanedUploads (db (fst ?dry))"
  let ?marked = "takeWhile ?ok ?os"
  let ?tried = "take (Suc (length ?marked)) ?os"
  have wet: "fst ?wet =
    (if throws GetPendingUploads then st0
     else if throws GetOrphanedUploads then st1\<lparr>calls := calls st1 @ [Run GetOrphanedUploads]\<rparr>
     else st1\<lparr>db := (db st1)\<lparr>rows := map (fold (\<lambda>u. set_status Unpinned (cid u)) ps) (rows (db st1))\<rparr>,
               tally := (tally st1)\<lparr>unpinned := unpinned (tally st1) + length ps\<rparr>,
               calls := calls st1 @ [Run GetOrphanedUploads] @
                        concat (map unpin_calls (take (Suc (length ps)) os1)) @
                        (if list_all ?ok os1 then [Run GetStats] else [])\<rparr>)"
    using runCleanup_sweep [of st1 mc now throws "opts\<lparr>dryRun := False\<rparr>" d store os1 ps bucket]
    by (simp add: st1_def os1_def ps_def st0_def)
  have wet_none: "snd ?wet = None" if "\<not> list_all ?ok os1" "\<not> throws GetPendingUploads" "\<not> throws GetOrphanedUploads"
    using runCleanup_sweep [of st1 mc now throws "opts\<lparr>dryRun := False\<rparr>" d store os1 ps bucket] that
    by (simp add: st1_def os1_def ps_def st0_def)
  have dry: "fst ?dry =
    (if throws GetPendingUploads then st0
     else if throws GetOrphanedUploads then st1\<lparr>calls := calls st1 @ [Run GetOrphanedUploads]\<rparr>
     else st1\<lparr>calls := calls st1 @ [Run GetOrphanedUploads, Run GetStats]\<rparr>)"
    using runCleanup_sweep [of st1 mc now throws "opts\<lparr>dryRun := True\<rparr>" d store os1 ps bucket]
    by (simp add: st1_def os1_def ps_def st0_def)
  have os: "?os = (if ran then os1 else [])"
    by (simp add: dry os1_def ran_def)
  have marked: "?marked = (if ran then ps else [])"
    unfolding os by (simp add: ps_def)
  have tried: "?tried = (if ran then take (Suc (length ps)) os1 else [])"
    unfolding marked unfolding os by simp
  have calls1: "calls st1 = [Run GetPendingUploads] @ concat (map (check_calls mc) (getStaleUploads now (maxAgeMinutes opts) d))"
    by (simp add: st1_def calls_checkStale)
  have u1: "filter is_unpin (calls st1) = []"
    by (simp add: calls1 filter_concat_none check_calls_kinds)
  have c1: "filter is_check (calls st1) = concat (map (check_calls mc) (getStaleUploads now (maxAgeMinutes opts) d))"
    by (simp add: calls1 filter_concat_all check_calls_kinds)
  have uo: "filter is_unpin (concat (map unpin_calls xs)) = concat (map unpin_calls xs)" for xs
    by (simp add: filter_concat_all unpin_calls_kinds)
  have co: "filter is_check (concat (map unpin_calls xs)) = []" for xs
    by (simp add: filter_concat_none unpin_calls_kinds)
  have t1: "unpinned (tally st1) = 0"
    by (simp add: st1_def tally_checkStale)
  have rows1: "rows (db st1) = map (checked mc now (maxAgeMinutes opts) throws) (rows d)"
    unfolding st1_def by (rule rows_first_loop [OF assms])
  have d1: "distinct (map cid (rows (db st1)))"
    using assms by (simp add: rows1 comp_def)
  have rows2: "map (fold (\<lambda>u. set_status Unpinned (cid u)) ps) (rows (db st1)) =
               map (\<lambda>r. if r \<in> set ps then r\<lparr>status := Unpinned\<rparr> else r) (rows (db st1))"
    using unpinned_prefix_rows [OF d1, of ?ok] by (simp add: ps_def os1_def getOrphanedUploads_def)
  have all: "ps = os1 \<and> take (Suc (length ps)) os1 = os1" if "list_all ?ok os1"
    using take_Suc_takeWhile_all [OF that] by (simp add: ps_def)
  have rows3: "map (fold (\<lambda>u. set_status Unpinned (cid u)) ps) (rows (db st1)) =
               map (\<lambda>r. if status r = Orphaned then r\<lparr>status := Unpinned\<rparr> else r) (rows (db st1))"
    if "list_all ?ok os1"
  proof -
    from all [OF that] have "ps = filter (\<lambda>r. status r = Orphaned) (rows (db st1))"
      by (simp add: os1_def getOrphanedUploads_def)
    then show ?thesis
      using unpinned_rows [OF d1] by (simp only:)
  qed
  have notall: "\<not> list_all ?ok os1" if "ps \<noteq> os1"
    using that all by blast
  have st0: "db st0 = d" "s3 st0 = store" "calls st0 = [Run GetPendingUploads]"
    "unpinned (tally st0) = 0"
    by (simp_all add: st0_def)
  have g1: "s3 (fst ?wet) = store" "s3 (fst ?dry) = store"
    by (simp_all add: s3_runCleanup)
  have g2: "fst (unpinFromFilebase store bucket c) = True" "snd (unpinFromFilebase store bucket c) = store"
    by (simp_all add: unpinFromFilebase_def)
  have g3: "filter is_unpin (calls (fst ?wet)) = concat (map unpin_calls ?tried)"
    unfolding tried by (simp add: wet st0 u1 uo ran_def)
  have g4: "rows (db (fst ?wet)) =
               map (\<lambda>r. if r \<in> set ?marked then r\<lparr>status := Unpinned\<rparr> else r) (rows (db (fst ?dry)))"
    unfolding marked by (simp add: wet dry st0 rows2 ran_def)
  have g5: "unpinned (tally (fst ?wet)) = length ?marked"
    unfolding marked by (simp add: wet st0 t1 ran_def)
  have g6: "snd ?wet = None" if "?marked \<noteq> ?os"
  proof (cases ran)
    case True
    then have o: "?os = os1"
      by (simp only: os if_True)
    have "takeWhile ?ok os1 \<noteq> os1"
      using that unfolding o .
    then have "ps \<noteq> os1"
      unfolding ps_def .
    with notall wet_none True show ?thesis
      by (simp add: ran_def)
  next
    case False
    then have "?os = []"
      by (simp only: os if_False)
    with that show ?thesis
      by simp
  qed
  have g7: "?marked = ?os \<and> ?tried = ?os \<and>
            (throws GetPendingUploads \<or> throws GetOrphanedUploads \<or>
             rows (db (fst ?wet)) =
               map (\<lambda>r. if status r = Orphaned then r\<lparr>status := Unpinned\<rparr> else r) (rows (db (fst ?dry))))"
    if a: "list_all ?ok ?os"
  proof (cases ran)
    case True
    then have o: "?os = os1"
      by (simp only: os if_True)
    from a have l: "list_all ?ok os1"
      unfolding o .
    have r: "rows (db (fst ?wet)) =
             map (\<lambda>r. if status r = Orphaned then r\<lparr>status := Unpinned\<rparr> else r) (rows (db (fst ?dry)))"
      using True rows3 [OF l] by (simp add: wet dry ran_def)
    from take_Suc_takeWhile_all [OF l] r show ?thesis
      unfolding o by blast
  next
    case False
    then have o: "?os = []"
      by (simp only: os if_False)
    from False have "throws GetPendingUploads \<or> throws GetOrphanedUploads"
      by (simp add: ran_def)
    moreover have "takeWhile ?ok [] = [] \<and> take (Suc (length (takeWhile ?ok []))) [] = []"
      by simp
    ultimately show ?thesis
      unfolding o by blast
  qed
  have g8: "filter is_unpin (calls (fst ?dry)) = []"
    by (simp add: dry st0 u1)
  have g9: "unpinned (tally (fst ?dry)) = 0"
    by (simp add: dry st0 t1)
  have g10: "rows (db (fst ?dry)) =
               (if throws GetPendingUploads then rows d
                else map (checked mc now (maxAgeMinutes opts) throws) (rows d))"
    by (simp add: dry st0 rows1)
  have g11: "filter is_check (calls (fst ?dry)) = filter is_check (calls (fst ?wet))"
    by (simp add: dry wet st0 c1 co)
  show ?thesis
    unfolding Let_def
    using g1 g2 g3 g4 g5 g6 g7 g8 g9 g10 g11 by blast
qed

theorem runCleanup_marks_orphans_unpinned_witness:
  "distinct (map cid (rows (db_in Orphaned))) \<and>
   getOrphanedUploads (db (fst (runCleanup None objects3 ''bucket'' dry_options 1200000 no_faults (db_in Orphaned)))) =
     [row_in Orphaned] \<and>
   list_all (\<lambda>u. \<not> no_faults (MarkUnpinned (cid u))) [row_in Orphaned] \<and>
   filter is_unpin (calls (fst (runCleanup None objects3 ''bucket'' default_options 1200000 no_faults (db_in Orphaned)))) =
     [UnpinFromFilebase ''bafy1'', Run (MarkUnpinned ''bafy1'')] \<and>
   rows (db (fst (runCleanup None objects3 ''bucket'' default_options 1200000 no_faults (db_in Orphaned)))) =
     [row_in Unpinned] \<and>
   s3 (fst (runCleanup None objects3 ''bucket'' default_options 1200000 no_faults (db_in Orphaned))) = objects3 \<and>
   distinct (map cid (rows (db2_in Orphaned))) \<and>
   getOrphanedUploads (db (fst (runCleanup None objects3 ''bucket'' dry_options 1200000
      (only_throws (MarkUnpinned ''bafy1'')) (db2_in Orphaned)))) = [row_in Orphaned, row2_in Orphaned] \<and>
   takeWhile (\<lambda>u. \<not> only_throws (MarkUnpinned ''bafy1'') (MarkUnpinned (cid u)))
     [row_in Orphaned, row2_in Orphaned] = [] \<and>
   filter is_unpin (calls (fst (runCleanup None objects3 ''bucket'' default_options 1200000
      (only_throws (MarkUnpinned ''bafy1'')) (db2_in Orphaned)))) =
     [UnpinFromFilebase ''bafy1'', Run (MarkUnpinned ''bafy1'')] \<and>
   rows (db (fst (runCleanup None objects3 ''bucket'' default_options 1200000
      (only_throws (MarkUnpinned ''bafy1'')) (db2_in Orphaned)))) = [row_in Orphaned, row2_in Orphaned] \<and>
   snd (runCleanup None objects3 ''bucket'' default_options 1200000
      (only_throws (MarkUnpinned ''bafy1'')) (db2_in Orphaned)) = None"
proof -
  have a: "list_all (\<lambda>u. \<not> no_faults (MarkUnpinned (cid u))) [row_in Orphaned]"
    by (simp add: no_faults_def)
  have b: "takeWhile (\<lambda>u. \<not> only_throws (MarkUnpinned ''bafy1'') (MarkUnpinned (cid u)))
     [row_in Orphaned, row2_in Orphaned] = []"
    by (simp add: only_throws_def row_in_def)
  have c: "getOrphanedUploads (db_in Orphaned) = [row_in Orphaned]"
    by (simp add: getOrphanedUploads_def db_in_def row_in_def)
  have nf: "no_faults GetPendingUploads = False" "no_faults GetOrphanedUploads = False"
    by (simp_all add: no_faults_def)
  have l: "list_all (\<lambda>u. \<not> no_faults (MarkUnpinned (cid u)))
             (if no_faults GetPendingUploads \<or> no_faults GetOrphanedUploads then []
              else getOrphanedUploads
                     (db (fst (runCleanup None objects3 ''bucket'' dry_options 1200000 no_faults (db_in Orphaned)))))"
    using a by (simp add: nf eval_dry_orphan c)
  from runCleanup_marks_orphans_unpinned [OF eval_db_in(1) [of Orphaned], where mc = None and store = objects3
      and bucket = "''bucket''" and opts = default_options and now = 1200000 and throws = no_faults
      and c = "''bafy1''", unfolded Let_def eval_options] l nf
  have g0: "rows (db (fst (runCleanup None objects3 ''bucket'' default_options 1200000 no_faults (db_in Orphaned)))) =
            map (\<lambda>r. if status r = Orphaned then r\<lparr>status := Unpinned\<rparr> else r)
              (rows (db (fst (runCleanup None objects3 ''bucket'' dry_options 1200000 no_faults (db_in Orphaned)))))"
    by blast
  have g3: "rows (db (fst (runCleanup None objects3 ''bucket'' default_options 1200000 no_faults (db_in Orphaned)))) =
            [row_in Unpinned]"
    unfolding g0 by (simp add: eval_dry_orphan eval_rows_db_in row_in_def)
  note t2 = runCleanup_marks_orphans_unpinned [OF eval_db2_in(1) [of Orphaned], where mc = None and store = objects3
      and bucket = "''bucket''" and opts = default_options and now = 1200000
      and throws = "only_throws (MarkUnpinned ''bafy1'')" and c = "''bafy1''",
      unfolded Let_def eval_options eval_sweep_interrupted eval_dry_two_orphans]
  have g1: "filter is_unpin (calls (fst (runCleanup None objects3 ''bucket'' default_options 1200000 no_faults (db_in Orphaned)))) =
     [UnpinFromFilebase ''bafy1'', Run (MarkUnpinned ''bafy1'')]"
    by (simp add: eval_sweep_orphan)
  have g2: "snd (runCleanup None objects3 ''bucket'' default_options 1200000
      (only_throws (MarkUnpinned ''bafy1'')) (db2_in Orphaned)) = None"
    using t2 b by (simp add: eval_orphans_db2 only_throws_def eval_sweep_interrupted)
  from g1 g2 g3 a b c eval_db_in(1) [of Orphaned] eval_db2_in(1) [of Orphaned]
  show ?thesis
    by (simp add: eval_sweep_orphan eval_dry_orphan eval_sweep_interrupted
        eval_dry_two_orphans eval_orphans_db2 eval_rows_db_in)
qed

lemma fold_unpin_row_fun:
  "fold (\<lambda>u. set_status Unpinned (cid u)) ps =
     (\<lambda>r. if cid r \<in> cid ` set ps then r\<lparr>status := Unpinned\<rparr> else r)"
  by (rule ext) (rule fold_unpin_row)

lemma rows_runCleanup_working_table:
  assumes "distinct (map cid (rows d))"
  shows "rows (db (fst (runCleanup mc store bucket opts now no_faults d))) =
           (if dryRun opts then map (checked mc now (maxAgeMinutes opts) no_faults) (rows d)
            else map (\<lambda>r. if status r = Orphaned then r\<lparr>status := Unpinned\<rparr> else r)
                   (map (checked mc now (maxAgeMinutes opts) no_faults) (rows d)))"
proof -
  let ?rows1 = "map (checked mc now (maxAgeMinutes opts) no_faults) (rows d)"
  have d1: "distinct (map cid ?rows1)"
    using assms by (simp add: comp_def)
  have tw: "takeWhile (\<lambda>u. \<not> no_faults (MarkUnpinned (cid u))) xs = xs" for xs
    by (simp add: no_faults_def)
  have "map (\<lambda>r. if cid r \<in> cid ` set (filter (\<lambda>r. status r = Orphaned) ?rows1)
                  then r\<lparr>status := Unpinned\<rparr> else r) ?rows1 =
        map (\<lambda>r. if status r = Orphaned then r\<lparr>status := Unpinned\<rparr> else r) ?rows1"
    using unpinned_rows [OF d1] unfolding fold_unpin_row_fun .
  then show ?thesis
    using rows_runCleanup_checked [OF assms, of mc store bucket opts now no_faults]
    by (simp add: tw) (simp add: no_faults_def)
qed

lemma calls_runCleanup_working_table:
  assumes "distinct (map cid (rows d))"
  shows "calls (fst (runCleanup mc store bucket opts now no_faults d)) =
           [Run GetPendingUploads] @
           concat (map (check_calls mc) (getStaleUploads now (maxAgeMinutes opts) d)) @
           [Run GetOrphanedUploads] @
           (if dryRun opts then []
            else concat (map unpin_calls
                   (filter (\<lambda>r. status r = Orphaned)
                      (map (checked mc now (maxAgeMinutes opts) no_faults) (rows d))))) @
           [Run GetStats]"
proof -
  define st1 where "st1 = checkStale mc now no_faults (getStaleUploads now (maxAgeMinutes opts) d)
                 \<lparr>db = d, s3 = store,
                  tally = \<lparr>confirmed = 0, orphaned = 0, unpinned = 0, errors = 0\<rparr>,
                  calls = [Run GetPendingUploads]\<rparr>"
  have nf: "\<not> no_faults q" for q
    by (simp add: no_faults_def)
  have calls1: "calls st1 = [Run GetPendingUploads] @ concat (map (check_calls mc) (getStaleUploads now (maxAgeMinutes opts) d))"
    by (simp add: st1_def calls_checkStale)
  have "rows (db st1) = map (\<lambda>r. if is_stale now (maxAgeMinutes opts) r then check_row mc now no_faults r r else r) (rows d)"
    unfolding st1_def getStaleUploads_filter
    using rows_after_checks [of "\<lparr>db = d, s3 = store,
                  tally = \<lparr>confirmed = 0, orphaned = 0, unpinned = 0, errors = 0\<rparr>,
                  calls = [Run GetPendingUploads]\<rparr>" mc now no_faults "is_stale now (maxAgeMinutes opts)"] assms
    by simp
  then have rows1: "rows (db st1) = map (checked mc now (maxAgeMinutes opts) no_faults) (rows d)"
    by (simp add: checked_def [abs_def])
  show ?thesis
    using runCleanup_working_table [where throws = no_faults, OF nf, of mc store bucket opts now d]
    by (simp add: Let_def st1_def [symmetric] calls1 getOrphanedUploads_def rows1)
qed

lemma stale_member:
  "r \<in> set (rows d) \<Longrightarrow> is_stale now maxAge r \<Longrightarrow> r \<in> set (getStaleUploads now maxAge d)"
  by (simp add: getStaleUploads_filter)

lemma not_on_chain_without_contract: "\<not> on_chain None r"
  by (simp add: on_chain_def checkOnChain_def)

lemma calls_runCleanup_without_contract:
  "set (calls (fst (runCleanup None store bucket opts now throws d))) \<subseteq>
     {Run GetPendingUploads, Run GetOrphanedUploads, Run GetStats} \<union>
     (\<lambda>u. Run (MarkOrphaned (cid u))) ` set (getStaleUploads now (maxAgeMinutes opts) d) \<union>
     range UnpinFromFilebase \<union> range (\<lambda>c. Run (MarkUnpinned c))"
proof -
  define st1 :: "'a sweep" where "st1 = checkStale None now throws (getStaleUploads now (maxAgeMinutes opts) d)
                 \<lparr>db = d, s3 = store,
                  tally = \<lparr>confirmed = 0, orphaned = 0, unpinned = 0, errors = 0\<rparr>,
                  calls = [Run GetPendingUploads]\<rparr>"
  have cc: "check_calls None = (\<lambda>u. [Run (MarkOrphaned (cid u))])"
    by (rule ext) (simp add: check_calls_def checkOnChain_calls_def not_on_chain_without_contract)
  have calls1: "set (calls st1) =
      insert (Run GetPendingUploads)
        ((\<lambda>u. Run (MarkOrphaned (cid u))) ` set (getStaleUploads now (maxAgeMinutes opts) d))"
    by (auto simp: st1_def calls_checkStale cc)
  have u: "set (concat (map unpin_calls xs)) \<subseteq> range UnpinFromFilebase \<union> range (\<lambda>c. Run (MarkUnpinned c))" for xs
    by (auto simp: unpin_calls_def)
  show ?thesis
    using runCleanup_sweep [OF st1_def refl refl, of bucket] calls1
      u [of "take (Suc (length (takeWhile (\<lambda>u. \<not> throws (MarkUnpinned (cid u))) (getOrphanedUploads (db st1)))))
               (getOrphanedUploads (db st1))"]
    by (auto split: if_splits)
qed

lemma calls_runCleanup_first_loop:
  assumes "\<not> throws GetPendingUploads" and "u \<in> set (getStaleUploads now (maxAgeMinutes opts) d)"
  shows "set (check_calls mc u) \<subseteq> set (calls (fst (runCleanup mc store bucket opts now throws d)))"
proof -
  define st1 :: "'a sweep" where "st1 = checkStale mc now throws (getStaleUploads now (maxAgeMinutes opts) d)
                 \<lparr>db = d, s3 = store,
                  tally = \<lparr>confirmed = 0, orphaned = 0, unpinned = 0, errors = 0\<rparr>,
                  calls = [Run GetPendingUploads]\<rparr>"
  have "set (check_calls mc u) \<subseteq> set (calls st1)"
    using assms(2) by (auto simp: st1_def calls_checkStale)
  then show ?thesis
    using runCleanup_sweep [OF st1_def refl refl, of bucket] assms(1)
    by (auto split: if_splits)
qed

text \<open>
  C10 as stated says that without a contract handle every stale pending entry is marked
  orphaned by the sweep, and unpinned when the sweep is not a dry run. The UPDATEs can
  throw. When \<^verbatim>\<open>markOrphaned\<close> throws for the entry, the catch block counts an error and the
  entry stays pending. When \<^verbatim>\<open>markUnpinned\<close> throws for an orphaned entry before it, the
  sweep ends there and the entry stays orphaned.
\<close>

theorem runCleanup_throwing_update_counterexample:
  "checkOnChain None ''0xT'' ''0xA'' 0 = False \<and>
   is_stale 1200000 (maxAgeMinutes default_options) (row_in Pending) \<and>
   status_of ''bafy1'' (db_in Pending) = Some Pending \<and>
   status_of ''bafy1''
     (db (fst (runCleanup None no_objects ''bucket'' default_options 1200000
                 (only_throws (MarkOrphaned ''bafy1'')) (db_in Pending)))) = Some Pending \<and>
   is_stale 1200000 (maxAgeMinutes default_options) (row2_in Pending) \<and>
   status_of ''bafy2'' (db2_in Pending) = Some Pending \<and>
   dryRun default_options = False \<and>
   status_of ''bafy2''
     (db (fst (runCleanup None no_objects ''bucket'' default_options 1200000
                 (only_throws (MarkUnpinned ''bafy1'')) (db2_in Pending)))) = Some Orphaned"
  by (simp add: checkOnChain_def eval_options eval_stale_row_in eval_stale_row2_in eval_status_of_db_in
      eval_status_of_db2_in eval_sweep_update_throws eval_sweep_two_pending_interrupted)

text \<open>
  C10, amended. Without a contract handle \<^verbatim>\<open>checkOnChain\<close> answers false for every entry,
  and a sweep confirms nothing: it makes no call of \<^verbatim>\<open>markConfirmed\<close> and counts no
  confirmation. A stale pending row is still pending after the sweep when the SELECT of the
  stale rows or its own \<^verbatim>\<open>markOrphaned\<close> throws. Otherwise it is marked orphaned, and a sweep
  that is not a dry run then marks it unpinned, unless the SELECT of the orphaned rows
  throws or \<^verbatim>\<open>markUnpinned\<close> throws for it or for an orphaned row before it. With a table
  whose statements do not throw, every stale pending row ends orphaned after a dry run and
  unpinned after a sweep that is not a dry run, and the sweep counts every stale row as
  orphaned.
\<close>

theorem runCleanup_without_contract:
  assumes "distinct (map cid (rows d))" and "r \<in> set (rows d)"
    and "is_stale now (maxAgeMinutes opts) r"
  shows "checkOnChain None t s i = False \<and>
         (let st = fst (runCleanup None store bucket opts now throws d);
              dry = fst (runCleanup None store bucket (opts\<lparr>dryRun := True\<rparr>) now throws d);
              stale = getStaleUploads now (maxAgeMinutes opts) d;
              marked = takeWhile (\<lambda>u. \<not> throws (MarkUnpinned (cid u))) (getOrphanedUploads (db dry))
          in status_of (cid r) (db st) =
               Some (if throws GetPendingUploads \<or> throws (MarkOrphaned (cid r)) then Pending
                     else if dryRun opts \<or> throws GetOrphanedUploads \<or> cid r \<notin> cid ` set marked
                     then Orphaned else Unpinned) \<and>
             confirmed (tally st) = 0 \<and>
             Run (MarkConfirmed (cid r)) \<notin> set (calls st) \<and>
             (throws GetPendingUploads \<or>
              Run (MarkOrphaned (cid r)) \<in> set (calls st) \<and>
              orphaned (tally st) = length (filter (\<lambda>u. \<not> throws (MarkOrphaned (cid u))) stale)) \<and>
             (throws = no_faults \<longrightarrow>
                status_of (cid r) (db st) = Some (if dryRun opts then Orphaned else Unpinned) \<and>
                orphaned (tally st) = length stale \<and>
                Run (MarkOrphaned (cid r)) \<in> set (calls st) \<and>
                (dryRun opts \<or> Run (MarkUnpinned (cid r)) \<in> set (calls st))))"
proof -
  let ?st = "fst (runCleanup None store bucket opts now throws d)"
  let ?dry = "fst (runCleanup None store bucket (opts\<lparr>dryRun := True\<rparr>) now throws d)"
  let ?stale = "getStaleUploads now (maxAgeMinutes opts) d"
  let ?ok = "\<lambda>u. \<not> throws (MarkUnpinned (cid u))"
  define ps where "ps = takeWhile ?ok (getOrphanedUploads (db ?dry))"
  have ck: "checkOnChain None t s i = False"
    by (simp add: checkOnChain_def)
  have pending: "status r = Pending"
    using assms(3) by (simp add: is_stale_def)
  have g1: "status_of (cid r) (db ?st) =
               Some (if throws GetPendingUploads \<or> throws (MarkOrphaned (cid r)) then Pending
                     else if dryRun opts \<or> throws GetOrphanedUploads \<or> cid r \<notin> cid ` set ps
                     then Orphaned else Unpinned)"
  proof (cases "throws GetPendingUploads")
    case True
    then have "rows (db ?st) = map id (rows d)"
      using rows_runCleanup_checked [OF assms(1), of None store bucket opts now throws] by simp
    from status_of_map [OF assms(1,2) _ this] True pending show ?thesis
      by simp
  next
    case False
    have v: "(if throws (MarkOrphaned (cid r)) then Pending else Orphaned) =
             status (checked None now (maxAgeMinutes opts) throws r)"
      using assms(3) by (simp add: status_checked not_on_chain_without_contract)
    from status_of_runCleanup [OF assms(1,2) False refl refl ps_def v]
    have "status_of (cid r) (db ?st) =
            Some (if \<not> dryRun opts \<and> \<not> throws GetOrphanedUploads \<and> cid r \<in> cid ` set ps
                  then Unpinned else (if throws (MarkOrphaned (cid r)) then Pending else Orphaned))"
      and o: "cid r \<in> cid ` set (getOrphanedUploads (db ?dry)) \<longleftrightarrow> \<not> throws (MarkOrphaned (cid r))"
      by simp_all
    moreover have "cid r \<in> cid ` set (getOrphanedUploads (db ?dry))" if "cid r \<in> cid ` set ps"
      using that unfolding ps_def by (blast dest: set_takeWhileD)
    ultimately show ?thesis
      using False by auto
  qed
  have g2: "confirmed (tally ?st) = 0"
  proof (cases "throws GetPendingUploads")
    case True
    then show ?thesis
      by (simp add: runCleanup_def)
  next
    case False
    from tally_runCleanup [where throws = throws and mc = None and store = store and bucket = bucket
      and opts = opts and now = now and d = d, OF False]
    show ?thesis
      by (simp add: not_on_chain_without_contract)
  qed
  have g3: "Run (MarkConfirmed (cid r)) \<notin> set (calls ?st)"
    using calls_runCleanup_without_contract [of store bucket opts now throws d] by auto
  have g4: "Run (MarkOrphaned (cid r)) \<in> set (calls ?st) \<and>
            orphaned (tally ?st) = length (filter (\<lambda>u. \<not> throws (MarkOrphaned (cid u))) ?stale)"
    if gp: "\<not> throws GetPendingUploads"
  proof -
    have "set (check_calls None r) \<subseteq> set (calls ?st)"
      using calls_runCleanup_first_loop [where throws = throws and mc = None and store = store
          and bucket = bucket and opts = opts and now = now and d = d and u = r,
          OF gp stale_member [OF assms(2,3)]] .
    then have "Run (MarkOrphaned (cid r)) \<in> set (calls ?st)"
      by (simp add: check_calls_def checkOnChain_calls_def not_on_chain_without_contract)
    moreover from tally_runCleanup [where throws = throws and mc = None and store = store and bucket = bucket
      and opts = opts and now = now and d = d, OF gp]
    have "orphaned (tally ?st) = length (filter (\<lambda>u. \<not> throws (MarkOrphaned (cid u))) ?stale)"
      by (simp add: not_on_chain_without_contract)
    ultimately show ?thesis
      by blast
  qed
  have g5: "status_of (cid r) (db ?st) = Some (if dryRun opts then Orphaned else Unpinned) \<and>
            orphaned (tally ?st) = length ?stale \<and>
            Run (MarkOrphaned (cid r)) \<in> set (calls ?st) \<and>
            (dryRun opts \<or> Run (MarkUnpinned (cid r)) \<in> set (calls ?st))"
    if nf: "throws = no_faults"
  proof -
    let ?c = "checked None now (maxAgeMinutes opts) no_faults"
    let ?nst = "fst (runCleanup None store bucket opts now no_faults d)"
    have n: "\<not> no_faults q" for q
      by (simp add: no_faults_def)
    have sc: "status (?c r) = Orphaned"
      using assms(3) by (simp add: status_checked not_on_chain_without_contract n)
    have st: "status_of (cid r) (db ?nst) = Some (if dryRun opts then Orphaned else Unpinned)"
    proof (cases "dryRun opts")
      case True
      then have "rows (db ?nst) = map ?c (rows d)"
        using rows_runCleanup_working_table [OF assms(1), of None store bucket opts now] by simp
      from status_of_map [OF assms(1,2) _ this] sc True show ?thesis by simp
    next
      case False
      then have "rows (db ?nst) = map ((\<lambda>r. if status r = Orphaned then r\<lparr>status := Unpinned\<rparr> else r) \<circ> ?c) (rows d)"
        using rows_runCleanup_working_table [OF assms(1), of None store bucket opts now] by simp
      from status_of_map [OF assms(1,2) _ this] sc False show ?thesis by simp
    qed
    note t = tally_runCleanup [where throws = no_faults and mc = None and store = store and bucket = bucket
        and opts = opts and now = now and d = d, OF n]
    have tor: "orphaned (tally ?nst) = length ?stale"
      using t by (simp add: not_on_chain_without_contract n)
    note c = calls_runCleanup_working_table [OF assms(1), of None store bucket opts now]
    have cc: "check_calls None u = [Run (MarkOrphaned (cid u))]" for u
      by (simp add: check_calls_def checkOnChain_calls_def not_on_chain_without_contract)
    have mo: "Run (MarkOrphaned (cid r)) \<in> set (calls ?nst)"
      using stale_member [OF assms(2,3)] by (simp add: c cc) blast
    have mu: "Run (MarkUnpinned (cid r)) \<in> set (calls ?nst)" if "\<not> dryRun opts"
    proof -
      have "?c r \<in> set (filter (\<lambda>r. status r = Orphaned) (map ?c (rows d)))"
        using assms(2) sc by simp
      then show ?thesis
        using that by (simp add: c unpin_calls_def del: set_filter) (metis cid_checked)
    qed
    from st tor mo mu show ?thesis
      unfolding nf by blast
  qed
  from ck g1 g2 g3 g4 g5 show ?thesis
    unfolding Let_def ps_def by blast
qed

theorem runCleanup_without_contract_witness:
  "distinct (map cid (rows (db_in Pending))) \<and> row_in Pending \<in> set (rows (db_in Pending)) \<and>
   is_stale 1200000 (maxAgeMinutes default_options) (row_in Pending) \<and>
   status_of (cid (row_in Pending))
     (db (fst (runCleanup None no_objects ''bucket'' default_options 1200000 no_faults (db_in Pending)))) =
     Some Unpinned \<and>
   status_of (cid (row_in Pending))
     (db (fst (runCleanup None no_objects ''bucket'' dry_options 1200000 no_faults (db_in Pending)))) =
     Some Orphaned \<and>
   distinct (map cid (rows (db2_in Pending))) \<and> row2_in Pending \<in> set (rows (db2_in Pending)) \<and>
   is_stale 1200000 (maxAgeMinutes default_options) (row2_in Pending) \<and>
   status_of (cid (row2_in Pending))
     (db (fst (runCleanup None no_objects ''bucket'' default_options 1200000
                 (only_throws (MarkUnpinned ''bafy1'')) (db2_in Pending)))) = Some Orphaned"
proof -
  have a: "is_stale 1200000 (maxAgeMinutes default_options) (row_in Pending)"
    "is_stale 1200000 (maxAgeMinutes dry_options) (row_in Pending)"
    "is_stale 1200000 (maxAgeMinutes default_options) (row2_in Pending)"
    by (simp_all add: eval_options eval_stale_row_in eval_stale_row2_in)
  have nf: "no_faults q = False" for q
    by (simp add: no_faults_def)
  note t1 = runCleanup_without_contract [OF eval_db_in(1,2) [of Pending] a(1), where throws = no_faults
      and t = "''0xT''" and s = "''0xA''" and i = 0 and store = no_objects and bucket = "''bucket''",
      unfolded Let_def, THEN conjunct2, THEN conjunct2, THEN conjunct2, THEN conjunct2, THEN conjunct2,
      rule_format, OF refl]
  note t2 = runCleanup_without_contract [OF eval_db_in(1,2) [of Pending] a(2), where throws = no_faults
      and t = "''0xT''" and s = "''0xA''" and i = 0 and store = no_objects and bucket = "''bucket''",
      unfolded Let_def, THEN conjunct2, THEN conjunct2, THEN conjunct2, THEN conjunct2, THEN conjunct2,
      rule_format, OF refl]
  note t3 = runCleanup_without_contract [OF eval_db2_in(1,3) [of Pending] a(3),
      where throws = "only_throws (MarkUnpinned ''bafy1'')"
      and t = "''0xT''" and s = "''0xA''" and i = 0 and store = no_objects and bucket = "''bucket''",
      unfolded Let_def, THEN conjunct2, THEN conjunct1]
  have g1: "status_of (cid (row_in Pending))
     (db (fst (runCleanup None no_objects ''bucket'' default_options 1200000 no_faults (db_in Pending)))) =
     Some Unpinned"
    using t1 by (simp add: eval_options)
  have g2: "status_of (cid (row_in Pending))
     (db (fst (runCleanup None no_objects ''bucket'' dry_options 1200000 no_faults (db_in Pending)))) =
     Some Orphaned"
    using t2 by (simp add: eval_options)
  have g3: "status_of (cid (row2_in Pending))
     (db (fst (runCleanup None no_objects ''bucket'' default_options 1200000
                 (only_throws (MarkUnpinned ''bafy1'')) (db2_in Pending)))) = Some Orphaned"
    using t3
    by (simp add: eval_options eval_dry_two_pending eval_orphans_db2 only_throws_def row_in_def row2_in_def)
  from g1 g2 g3 a eval_db_in [of Pending] eval_db2_in [of Pending]
  show ?thesis
    by simp
qed

lemma orphan_prefix:
  assumes "distinct (map cid xs)" and "x \<in> set xs"
    and "cid x \<in> cid ` set (takeWhile P (filter (\<lambda>r. status r = Orphaned) xs))"
  shows "status x = Orphaned"
proof -
  from assms(3) obtain p where p: "p \<in> set (takeWhile P (filter (\<lambda>r. status r = Orphaned) xs))" "cid p = cid x"
    by auto
  from p(1) have "p \<in> set (filter (\<lambda>r. status r = Orphaned) xs)"
    by (blast dest: set_takeWhileD)
  then have "p \<in> set xs" and "status p = Orphaned" by simp_all
  with cid_inj_rows [OF assms(1) _ assms(2) p(2)] show ?thesis by simp
qed

lemma list_all2_map_same:
  "(\<And>x. x \<in> set xs \<Longrightarrow> R x (f x)) \<Longrightarrow> list_all2 R xs (map f xs)"
  by (simp add: list_all2_map2 list_all2_same)

lemma status_of_insertUpload:
  "status_of c (insertUpload c t i s ts d) = Some Pending"
proof -
  have "find (\<lambda>r. cid r = c) (filter (\<lambda>r. cid r \<noteq> c) xs @ ys) = find (\<lambda>r. cid r = c) ys"
    for xs ys :: "upload list"
    by (induction xs) simp_all
  then show ?thesis
    by (simp add: status_of_def insertUpload_def)
qed

lemma eval_mark_confirmed_row:
  "markOrphaned ''bafy1'' (db_in Confirmed) = db_in Orphaned"
  "snd (confirmUpload no_faults 1200000 ''bafy1'' (db_in Unpinned)) =
     \<lparr>rows = [(row_in Confirmed)\<lparr>confirmed_at := Some 1200000\<rparr>], seq = 1\<rparr>"
  by (simp_all add: markOrphaned_def confirmUpload_def markConfirmed_def no_faults_def db_in_def row_in_def
      set_status_def set_confirmed_def)

text \<open>
  C4 as stated says no transition other than pending to confirmed, pending to orphaned and
  orphaned to unpinned is reachable through the store, and that \<^verbatim>\<open>confirm\<close> and
  \<^verbatim>\<open>markOrphaned\<close> leave a terminal row unchanged. The UPDATE statements select on the cid
  alone: \<^verbatim>\<open>markOrphaned\<close> takes a confirmed row to orphaned, and \<^verbatim>\<open>confirmUpload\<close> takes
  an unpinned row to confirmed and stamps it.
\<close>

theorem terminal_rows_rewritten_counterexample:
  "status_of ''bafy1'' (db_in Confirmed) = Some Confirmed \<and>
   status_of ''bafy1'' (markOrphaned ''bafy1'' (db_in Confirmed)) = Some Orphaned \<and>
   status_of ''bafy1'' (db_in Unpinned) = Some Unpinned \<and>
   confirmUpload no_faults 1200000 ''bafy1'' (db_in Unpinned) =
     (True, \<lparr>rows = [(row_in Confirmed)\<lparr>confirmed_at := Some 1200000\<rparr>], seq = 1\<rparr>) \<and>
   status_of ''bafy1'' (snd (confirmUpload no_faults 1200000 ''bafy1'' (db_in Unpinned))) = Some Confirmed"
  by (simp add: eval_status_of_db_in eval_mark_confirmed_row)
     (simp add: confirmUpload_def markConfirmed_def no_faults_def db_in_def row_in_def
        set_confirmed_def status_of_def)

text \<open>
  C4, amended. The statements of the store write the status whatever it was: on a row of
  any status, \<^verbatim>\<open>confirmUpload\<close> and \<^verbatim>\<open>markConfirmed\<close> leave it confirmed, \<^verbatim>\<open>markOrphaned\<close>
  orphaned, \<^verbatim>\<open>markUnpinned\<close> unpinned, and \<^verbatim>\<open>trackUpload\<close> pending again; none of them is an
  error. The three transitions are what the sweeper does with them: its first loop
  (the table after a dry run) takes rows only from pending to confirmed or to orphaned, and
  its second loop only from orphaned to unpinned, whichever statements throw.
\<close>

theorem status_writes_unguarded:
  assumes "distinct (map cid (rows d))" and "r \<in> set (rows d)"
  shows "confirmUpload no_faults now (cid r) d = (True, markConfirmed now (cid r) d) \<and>
         status_of (cid r) (markConfirmed now (cid r) d) = Some Confirmed \<and>
         status_of (cid r) (markOrphaned (cid r) d) = Some Orphaned \<and>
         status_of (cid r) (markUnpinned (cid r) d) = Some Unpinned \<and>
         status_of (cid r) (snd (trackUpload no_faults now (cid r) t i s d)) = Some Pending \<and>
         (let dry = db (fst (runCleanup mc store bucket (opts\<lparr>dryRun := True\<rparr>) now throws d));
              wet = db (fst (runCleanup mc store bucket (opts\<lparr>dryRun := False\<rparr>) now throws d))
          in list_all2 (\<lambda>a b. cid b = cid a \<and>
                          (status b = status a \<or>
                           (status a = Pending \<and> (status b = Confirmed \<or> status b = Orphaned))))
               (rows d) (rows dry) \<and>
             list_all2 (\<lambda>a b. cid b = cid a \<and>
                          (status b = status a \<or> (status a = Orphaned \<and> status b = Unpinned)))
               (rows dry) (rows wet))"
proof -
  let ?c = "checked mc now (maxAgeMinutes opts) throws"
  let ?dry = "db (fst (runCleanup mc store bucket (opts\<lparr>dryRun := True\<rparr>) now throws d))"
  let ?wet = "db (fst (runCleanup mc store bucket (opts\<lparr>dryRun := False\<rparr>) now throws d))"
  let ?R1 = "\<lambda>a b. cid b = cid a \<and>
                (status b = status a \<or> (status a = Pending \<and> (status b = Confirmed \<or> status b = Orphaned)))"
  let ?R2 = "\<lambda>a b. cid b = cid a \<and> (status b = status a \<or> (status a = Orphaned \<and> status b = Unpinned))"
  have cu: "confirmUpload no_faults now (cid r) d = (True, markConfirmed now (cid r) d)"
    by (simp add: confirmUpload_def no_faults_def)
  have mc: "status_of (cid r) (markConfirmed now (cid r) d) = Some Confirmed"
    using status_of_map [OF assms, of "set_confirmed now (cid r)" "markConfirmed now (cid r) d"]
    by (simp add: markConfirmed_def set_confirmed_def)
  have mo: "status_of (cid r) (markOrphaned (cid r) d) = Some Orphaned"
    using status_of_map [OF assms, of "set_status Orphaned (cid r)" "markOrphaned (cid r) d"]
    by (simp add: markOrphaned_def set_status_def)
  have mu: "status_of (cid r) (markUnpinned (cid r) d) = Some Unpinned"
    using status_of_map [OF assms, of "set_status Unpinned (cid r)" "markUnpinned (cid r) d"]
    by (simp add: markUnpinned_def set_status_def)
  have tr: "status_of (cid r) (snd (trackUpload no_faults now (cid r) t i s d)) = Some Pending"
    by (simp add: trackUpload_def no_faults_def status_of_insertUpload)
  have dry: "rows ?dry = (if throws GetPendingUploads then rows d else map ?c (rows d))"
    using rows_runCleanup_checked [OF assms(1), of mc store bucket "opts\<lparr>dryRun := True\<rparr>" now throws]
    by simp
  have r1: "?R1 a (?c a)" for a
    by (simp add: status_checked) (simp add: is_stale_def)
  have first: "list_all2 ?R1 (rows d) (rows ?dry)"
  proof (cases "throws GetPendingUploads")
    case True
    then show ?thesis by (simp add: dry list_all2_same)
  next
    case False
    then show ?thesis
      unfolding dry using r1 by (simp add: list_all2_map2 list_all2_same)
  qed
  have d1: "distinct (map cid (map ?c (rows d)))"
    using assms(1) by (simp add: comp_def)
  let ?ps = "takeWhile (\<lambda>u. \<not> throws (MarkUnpinned (cid u)))
               (filter (\<lambda>r. status r = Orphaned) (map ?c (rows d)))"
  let ?u = "\<lambda>r. if cid r \<in> cid ` set ?ps then r\<lparr>status := Unpinned\<rparr> else r"
  have wet: "rows ?wet = (if throws GetPendingUploads then rows d
                          else if throws GetOrphanedUploads then map ?c (rows d)
                          else map ?u (map ?c (rows d)))"
    using rows_runCleanup_checked [OF assms(1), of mc store bucket "opts\<lparr>dryRun := False\<rparr>" now throws]
    by simp
  have r2: "?R2 x (?u x)" if "x \<in> set (map ?c (rows d))" for x
    using orphan_prefix [OF d1 that] by simp
  have second: "list_all2 ?R2 (rows ?dry) (rows ?wet)"
  proof (cases "throws GetPendingUploads \<or> throws GetOrphanedUploads")
    case True
    then show ?thesis by (auto simp: dry wet list_all2_same)
  next
    case False
    then have "rows ?dry = map ?c (rows d)" "rows ?wet = map ?u (map ?c (rows d))"
      by (simp_all add: dry wet)
    then show ?thesis
      using list_all2_map_same [of "map ?c (rows d)" ?R2 ?u] r2 by simp
  qed
  from cu mc mo mu tr first second show ?thesis
    unfolding Let_def by blast
qed

theorem status_writes_unguarded_witness:
  "distinct (map cid (rows (db_in Confirmed))) \<and> row_in Confirmed \<in> set (rows (db_in Confirmed)) \<and>
   status_of (cid (row_in Confirmed)) (db_in Confirmed) = Some Confirmed \<and>
   status_of (cid (row_in Confirmed)) (markOrphaned (cid (row_in Confirmed)) (db_in Confirmed)) =
     Some Orphaned"
  using status_writes_unguarded [OF eval_db_in(1,2) [of Confirmed], of 1200000 "''0xT''" 0 "''0xA''" None
      no_objects "''bucket''" default_options no_faults]
    eval_db_in [of Confirmed] eval_status_of_db_in [of Confirmed]
  by simp

section \<open>Every table the program builds has one row per cid\<close>

text \<open>
  The column \<^verbatim>\<open>cid\<close> is UNIQUE. The theorems about rows take this as their hypothesis; it
  holds of the empty table and is kept by every operation that writes to the table.
\<close>

lemma distinct_empty_db: "distinct (map cid (rows empty_db))"
  by (simp add: empty_db_def)

lemma distinct_confirmUpload:
  "distinct (map cid (rows d)) \<Longrightarrow> distinct (map cid (rows (snd (confirmUpload throws now c d))))"
  by (simp add: confirmUpload_def markConfirmed_def comp_def)

lemma distinct_runCleanup:
  assumes "distinct (map cid (rows d))"
  shows "distinct (map cid (rows (db (fst (runCleanup mc store bucket opts now throws d)))))"
proof -
  have "map cid (rows (db (fst (runCleanup mc store bucket opts now throws d)))) = map cid (rows d)"
    unfolding rows_runCleanup_checked [OF assms]
    by (simp add: comp_def cong: if_cong)
  then show ?thesis
    using assms by simp
qed

lemma distinct_sendMessage:
  assumes "distinct (map cid (rows d))"
  shows "distinct (map cid (rows (snd (snd (sendMessage js mc fails metadata_cid now throws m tid objects d)))))"
  using assms distinct_trackUpload [OF assms]
  by (simp add: sendMessage_def Let_def split: prod.splits option.splits)

end
